theory Spec2Isabelle
  imports Main "HOL-Library.Multiset" "HOL-Library.Sublist"
begin

section \<open>Data model\<close>

text \<open>
  The post-processor of \<^verbatim>\<open>src/plugin/post-processor.go\<close> works on the records of the
  EC2 API. Every field the code reads is a Go pointer, and the code dereferences it
  without a nil check: the fields are options here, and a dereference of \<open>None\<close> is a
  panic of the run. The slices hold the records themselves.
\<close>

record EbsBlockDevice =
  SnapshotId :: "string option"

record BlockDeviceMapping =
  Ebs :: "EbsBlockDevice option"

record Image =
  ImageId :: "string option"
  CreationDate :: "string option"
  BlockDeviceMappings :: "BlockDeviceMapping list"

text \<open>The fields of \<^verbatim>\<open>Config\<close> that are declared in the file (lines 26 to 30).\<close>

record Config =
  Identifier :: string
  KeepReleases :: int
  AccessKey :: string
  SecretKey :: string
  Region :: string

text \<open>A Go \<^verbatim>\<open>error\<close> value as the provider hands it out.\<close>

datatype error = AwsError string

subsection \<open>Time\<close>

text \<open>
  A \<^verbatim>\<open>time.Time\<close> is an instant; here it is the number of milliseconds since the zero
  value of the type, which is January 1 of year 1, 00:00:00 UTC. Instants before it are
  negative. \<^verbatim>\<open>t.After(u)\<close> is the strict order of instants.
\<close>

type_synonym Time = int

definition zeroTime :: Time where
  "zeroTime = 0"

definition After :: "Time \<Rightarrow> Time \<Rightarrow> bool" where
  "After t u = (u < t)"

text \<open>
  \<^verbatim>\<open>time.Parse\<close> belongs to Go's standard library, not to the repository: the functions
  below take it as the parameter \<open>parse\<close>, applied to the layout of line 100, with \<open>None\<close>
  for a returned error. Lines 100 and 101 drop the error and keep the returned time, and
  \<^verbatim>\<open>time.Parse\<close> returns the zero time together with every error.
\<close>

definition timeOf :: "(string \<Rightarrow> Time option) \<Rightarrow> string \<Rightarrow> Time" where
  "timeOf parse value = (case parse value of None \<Rightarrow> zeroTime | Some t \<Rightarrow> t)"

text \<open>
  An instance of the parser for the concrete runs, after the documentation of Go's
  \<^verbatim>\<open>time\<close> package: the layout \<^verbatim>\<open>2006-01-02T15:04:05.000Z\<close> on strings of exactly the form
  \<^verbatim>\<open>YYYY-MM-DDTHH:MM:SS.mmmZ\<close>, with the calendar's range checks, and an error for any
  other string. The library is more lenient on a few strings, a one-digit hour, a comma
  before the milliseconds and a sign in the milliseconds among them; this instance
  rejects them and no run below uses one. The theorems on all runs hold for every
  parser.
\<close>

definition isDigit :: "char \<Rightarrow> bool" where
  "isDigit c = (48 \<le> (of_char c :: nat) \<and> (of_char c :: nat) \<le> 57)"

definition atoi :: "string \<Rightarrow> nat option" where
  "atoi cs =
     (if cs \<noteq> [] \<and> list_all isDigit cs
      then Some (foldl (\<lambda>a c. 10 * a + (of_char c - 48)) 0 cs)
      else None)"

definition isLeap :: "nat \<Rightarrow> bool" where
  "isLeap year = (year mod 4 = 0 \<and> (year mod 100 \<noteq> 0 \<or> year mod 400 = 0))"

definition daysIn :: "nat \<Rightarrow> nat \<Rightarrow> nat" where
  "daysIn month year =
     (if month = 2 then (if isLeap year then 29 else 28)
      else if month \<in> {4, 6, 9, 11} then 30 else 31)"

definition daysBefore :: "nat \<Rightarrow> nat \<Rightarrow> nat" where
  "daysBefore month year = sum_list (map (\<lambda>m. daysIn m year) [1 ..< month])"

text \<open>Days from January 1 of year 1 to January 1 of the year (negative for year 0).\<close>

definition daysSinceEpoch :: "nat \<Rightarrow> int" where
  "daysSinceEpoch year =
     (let y = int year - 1 in 365 * y + y div 4 - y div 100 + y div 400)"

definition time_Parse :: "string \<Rightarrow> Time option" where
  "time_Parse value =
     (if length value = 24 \<and> value ! 4 = CHR ''-'' \<and> value ! 7 = CHR ''-''
         \<and> value ! 10 = CHR ''T'' \<and> value ! 13 = CHR '':'' \<and> value ! 16 = CHR '':''
         \<and> value ! 19 = CHR ''.'' \<and> value ! 23 = CHR ''Z''
      then
        (case (atoi (take 4 value), atoi (take 2 (drop 5 value)),
               atoi (take 2 (drop 8 value)), atoi (take 2 (drop 11 value)),
               atoi (take 2 (drop 14 value)), atoi (take 2 (drop 17 value)),
               atoi (take 3 (drop 20 value))) of
           (Some year, Some month, Some day, Some hour, Some minute, Some sec, Some msec) \<Rightarrow>
             if 1 \<le> month \<and> month \<le> 12 \<and> 1 \<le> day \<and> day \<le> daysIn month year
                \<and> hour < 24 \<and> minute < 60 \<and> sec < 60
             then Some ((((daysSinceEpoch year + int (daysBefore month year) + int day - 1) * 24
                          + int hour) * 60 + int minute) * 60 * 1000
                        + int sec * 1000 + int msec)
             else None
         | _ \<Rightarrow> None)
      else None)"

section \<open>The sort routine (lines 142 to 151)\<close>

text \<open>
  \<^verbatim>\<open>sort\<close> knows the slice only through its two closures, which read and write
  \<^verbatim>\<open>output.Images\<close>: the slice is the state \<open>s\<close> that the loops thread through. A closure
  that panics gives \<open>None\<close>. The inner loop runs \<open>m\<close> from \<open>len - 1\<close> down to \<open>n + 1\<close>, the
  outer loop runs \<open>n\<close> from \<open>0\<close> while \<open>n < len - 1\<close>. The routine's own return value is
  always \<^verbatim>\<open>nil\<close> and the caller drops it.
\<close>

function sort_inner ::
  "(nat \<Rightarrow> nat \<Rightarrow> 's \<Rightarrow> bool option) \<Rightarrow> (nat \<Rightarrow> nat \<Rightarrow> 's \<Rightarrow> 's option)
    \<Rightarrow> nat \<Rightarrow> nat \<Rightarrow> 's \<Rightarrow> 's option" where
  "sort_inner lessF swapF n m s =
     (if n < m then
        (case lessF (m - 1) m s of
           None \<Rightarrow> None
         | Some b \<Rightarrow>
             if \<not> b then
               (case swapF (m - 1) m s of
                  None \<Rightarrow> None
                | Some s' \<Rightarrow> sort_inner lessF swapF n (m - 1) s')
             else sort_inner lessF swapF n (m - 1) s)
      else Some s)"
  by pat_completeness auto
termination
  by (relation "measure (\<lambda>(lessF, swapF, n, m, s). m)") auto

function sort_outer ::
  "(nat \<Rightarrow> nat \<Rightarrow> 's \<Rightarrow> bool option) \<Rightarrow> (nat \<Rightarrow> nat \<Rightarrow> 's \<Rightarrow> 's option)
    \<Rightarrow> nat \<Rightarrow> nat \<Rightarrow> 's \<Rightarrow> 's option" where
  "sort_outer lessF swapF len n s =
     (if int n < int len - 1 then
        (case sort_inner lessF swapF n (len - 1) s of
           None \<Rightarrow> None
         | Some s' \<Rightarrow> sort_outer lessF swapF len (Suc n) s')
      else Some s)"
  by pat_completeness auto
termination
  by (relation "measure (\<lambda>(lessF, swapF, len, n, s). len - n)") auto

definition sort_fn ::
  "nat \<Rightarrow> (nat \<Rightarrow> nat \<Rightarrow> 's \<Rightarrow> bool option) \<Rightarrow> (nat \<Rightarrow> nat \<Rightarrow> 's \<Rightarrow> 's option)
    \<Rightarrow> 's \<Rightarrow> 's option" where
  "sort_fn len lessF swapF s = sort_outer lessF swapF len 0 s"

text \<open>
  The closures of lines 99 to 106. An index outside the slice panics, and so does a nil
  \<^verbatim>\<open>CreationDate\<close>.
\<close>

definition lessFunc :: "(string \<Rightarrow> Time option) \<Rightarrow> nat \<Rightarrow> nat \<Rightarrow> Image list \<Rightarrow> bool option" where
  "lessFunc parse i j images =
     (if i < length images \<and> j < length images then
        (case CreationDate (images ! i) of
           None \<Rightarrow> None
         | Some ci \<Rightarrow>
             (case CreationDate (images ! j) of
                None \<Rightarrow> None
              | Some cj \<Rightarrow> Some (After (timeOf parse ci) (timeOf parse cj))))
      else None)"

definition swapFunc :: "nat \<Rightarrow> nat \<Rightarrow> Image list \<Rightarrow> Image list option" where
  "swapFunc i j images =
     (if i < length images \<and> j < length images
      then Some (images[i := images ! j, j := images ! i])
      else None)"

definition sortImages :: "(string \<Rightarrow> Time option) \<Rightarrow> Image list \<Rightarrow> Image list option" where
  "sortImages parse images = sort_fn (length images) (lessFunc parse) swapFunc images"


section \<open>The provider and what a run does to it\<close>

text \<open>
  The three operations of the EC2 API that the code calls, over a provider state \<open>'s\<close>:
  \<^verbatim>\<open>DescribeImages\<close> with the name and the value of its one filter, the other two with an
  identifier. Each returns its error (\<open>None\<close> for \<^verbatim>\<open>nil\<close>) and the state it leaves. \<^verbatim>\<open>PostProcess\<close> uses
  \<^verbatim>\<open>p.ec2conn\<close> when it is set (line 60); the model starts from that connection, the
  construction of a real session (lines 61 to 79) is outside it.
\<close>

record 's EC2API =
  DescribeImages :: "string \<Rightarrow> string \<Rightarrow> 's \<Rightarrow> (error + Image list) \<times> 's"
  DeregisterImage :: "string \<Rightarrow> 's \<Rightarrow> error option \<times> 's"
  DeleteSnapshot :: "string \<Rightarrow> 's \<Rightarrow> error option \<times> 's"

text \<open>
  What a run does, in order: the lines it logs, the messages it shows to the user and the
  provider calls it makes, each call with the error it returned. A snapshot call also
  records the image whose block devices are being walked (the provider receives the
  snapshot identifier alone).
\<close>

datatype event =
    LogPrint string
  | UiMessage string
  | DescribeImagesCall string "error option"
  | DeregisterImageCall string "error option"
  | DeleteSnapshotCall string string "error option"

text \<open>How a loop ends: it ran to its end, it returned an error, or it panicked.\<close>

datatype status = Done | Failed error | Panic

text \<open>What \<^verbatim>\<open>PostProcess\<close> returns: the triple of line 56, unless the run panics.\<close>

datatype 'a result = Return "'a option" bool "error option" | Panicked

section \<open>PostProcess (lines 56 to 140)\<close>

text \<open>The name of the filter of lines 83 to 90.\<close>

definition tagFilter :: string where
  "tagFilter = ''tag:Amazon_AMI_Management_Identifier''"

text \<open>The texts that lines 114, 115, 124 and 130 format with \<^verbatim>\<open>%s\<close>.\<close>

definition msgDeletingImage :: "string \<Rightarrow> string" where
  "msgDeletingImage iid = ''Deleting image: '' @ iid"

definition logDeletingImage :: "string \<Rightarrow> string" where
  "logDeletingImage iid = ''Deleting image AMI ('' @ iid @ '')''"

definition logDeletingSnapshots :: "string \<Rightarrow> string" where
  "logDeletingSnapshots iid = ''Deleting snapshot related to AMI ('' @ iid @ '')''"

definition logDeletingSnapshot :: "string \<Rightarrow> string \<Rightarrow> string" where
  "logDeletingSnapshot sid iid = ''Deleting snapshot ('' @ sid @ '') related to AMI ('' @ iid @ '')''"

text \<open>The loop over the block devices of one image, lines 125 to 136.\<close>

fun deleteSnapshots ::
  "'s EC2API \<Rightarrow> string \<Rightarrow> BlockDeviceMapping list \<Rightarrow> 's \<Rightarrow> status \<times> 's \<times> event list" where
  "deleteSnapshots conn iid [] s = (Done, s, [])"
| "deleteSnapshots conn iid (device # rest) s =
     (case Ebs device of
        None \<Rightarrow> deleteSnapshots conn iid rest s
      | Some ebs \<Rightarrow>
          (case SnapshotId ebs of
             None \<Rightarrow> (Panic, s, [])
           | Some sid \<Rightarrow>
               (let line = LogPrint (logDeletingSnapshot sid iid)
                in case DeleteSnapshot conn sid s of
                     (Some err, s1) \<Rightarrow> (Failed err, s1, [line, DeleteSnapshotCall iid sid (Some err)])
                   | (None, s1) \<Rightarrow>
                       (case deleteSnapshots conn iid rest s1 of
                          (st, s2, evs) \<Rightarrow> (st, s2, [line, DeleteSnapshotCall iid sid None] @ evs)))))"

text \<open>The body of the loop over the images for one image past the kept ones, lines 114 to 136.\<close>

definition deleteImage :: "'s EC2API \<Rightarrow> Image \<Rightarrow> 's \<Rightarrow> status \<times> 's \<times> event list" where
  "deleteImage conn img s =
     (case ImageId img of
        None \<Rightarrow> (Panic, s, [])
      | Some iid \<Rightarrow>
          (let announce = [UiMessage (msgDeletingImage iid), LogPrint (logDeletingImage iid)]
           in case DeregisterImage conn iid s of
                (Some err, s1) \<Rightarrow> (Failed err, s1, announce @ [DeregisterImageCall iid (Some err)])
              | (None, s1) \<Rightarrow>
                  (case deleteSnapshots conn iid (BlockDeviceMappings img) s1 of
                     (st, s2, evs) \<Rightarrow>
                       (st, s2, announce @ [DeregisterImageCall iid None,
                                            LogPrint (logDeletingSnapshots iid)]
                                @ evs))))"

text \<open>The loop over the sorted images, lines 110 to 137; \<open>i\<close> is the index of the head.\<close>

fun deleteImages ::
  "'s EC2API \<Rightarrow> int \<Rightarrow> nat \<Rightarrow> Image list \<Rightarrow> 's \<Rightarrow> status \<times> 's \<times> event list" where
  "deleteImages conn keepReleases i [] s = (Done, s, [])"
| "deleteImages conn keepReleases i (img # rest) s =
     (if int i < keepReleases then deleteImages conn keepReleases (Suc i) rest s
      else
        (case deleteImage conn img s of
           (Done, s1, evs) \<Rightarrow>
             (case deleteImages conn keepReleases (Suc i) rest s1 of
                (st, s2, evs') \<Rightarrow> (st, s2, evs @ evs'))
         | (st, s1, evs) \<Rightarrow> (st, s1, evs)))"

definition PostProcess ::
  "'s EC2API \<Rightarrow> (string \<Rightarrow> Time option) \<Rightarrow> Config \<Rightarrow> 'a option \<Rightarrow> 's
    \<Rightarrow> 'a result \<times> 's \<times> event list" where
  "PostProcess conn parse config artifact s =
     (let start = [LogPrint ''Running Amazon AMI Management post-processor'',
                   LogPrint ''Describing images for generation management'']
      in case DescribeImages conn tagFilter (Identifier config) s of
           (Inl err, s1) \<Rightarrow>
             (Return None True (Some err), s1,
              start @ [DescribeImagesCall (Identifier config) (Some err)])
         | (Inr images, s1) \<Rightarrow>
             (let described = start @ [DescribeImagesCall (Identifier config) None]
              in case sortImages parse images of
                   None \<Rightarrow> (Panicked, s1, described)
                 | Some ordered \<Rightarrow>
                     (case deleteImages conn (KeepReleases config) 0 ordered s1 of
                        (Done, s2, evs) \<Rightarrow>
                          (Return artifact True None, s2,
                           described @ [LogPrint ''Deleting old images...''] @ evs)
                      | (Failed err, s2, evs) \<Rightarrow>
                          (Return None True (Some err), s2,
                           described @ [LogPrint ''Deleting old images...''] @ evs)
                      | (Panic, s2, evs) \<Rightarrow>
                          (Panicked, s2,
                           described @ [LogPrint ''Deleting old images...''] @ evs))))"

section \<open>A provider for concrete runs\<close>

text \<open>
  A provider in the place of \<^verbatim>\<open>p.ec2conn\<close>: it lists the images it holds, fails the calls
  on the identifiers in \<open>failing\<close> with an error that names the identifier, and otherwise
  removes the image. \<open>describeError\<close> makes the listing fail.
\<close>

record provider =
  listing :: "Image list"
  failing :: "string list"
  describeError :: "error option"

definition testConn :: "provider EC2API" where
  "testConn =
     \<lparr>DescribeImages = (\<lambda>name ident s.
        case describeError s of Some err \<Rightarrow> (Inl err, s) | None \<Rightarrow> (Inr (listing s), s)),
      DeregisterImage = (\<lambda>iid s.
        if iid \<in> set (failing s) then (Some (AwsError iid), s)
        else (None, s\<lparr>listing := filter (\<lambda>img. ImageId img \<noteq> Some iid) (listing s)\<rparr>)),
      DeleteSnapshot = (\<lambda>sid s.
        if sid \<in> set (failing s) then (Some (AwsError sid), s) else (None, s))\<rparr>"

definition mkImage :: "string \<Rightarrow> string \<Rightarrow> string option list \<Rightarrow> Image" where
  "mkImage iid created snaps =
     \<lparr>ImageId = Some iid, CreationDate = Some created,
      BlockDeviceMappings =
        map (\<lambda>snap. \<lparr>Ebs = map_option (\<lambda>sid. \<lparr>SnapshotId = Some sid\<rparr>) snap\<rparr>) snaps\<rparr>"

definition mkConfig :: "string \<Rightarrow> int \<Rightarrow> Config" where
  "mkConfig ident k =
     \<lparr>Identifier = ident, KeepReleases = k, AccessKey = [], SecretKey = [], Region = []\<rparr>"

text \<open>
  The three images of the scenario of the specification, with an ephemeral device on
  the second one, listed out of order; the same images newest first; and two providers
  that hold the listing: one where every call succeeds and one where the calls on
  \<^verbatim>\<open>ami-3\<close> fail. A third provider fails the listing itself.
\<close>

definition ami1 :: Image where
  "ami1 = mkImage ''ami-1'' ''2020-01-03T00:00:00.000Z'' [Some ''snap-1'']"

definition ami2 :: Image where
  "ami2 = mkImage ''ami-2'' ''2020-01-02T00:00:00.000Z'' [Some ''snap-2'', None]"

definition ami3 :: Image where
  "ami3 = mkImage ''ami-3'' ''2020-01-01T00:00:00.000Z'' []"

definition scenario :: "Image list" where
  "scenario = [ami3, ami1, ami2]"

definition newestFirst :: "Image list" where
  "newestFirst = [ami1, ami2, ami3]"

definition healthy :: provider where
  "healthy = \<lparr>listing = scenario, failing = [], describeError = None\<rparr>"

definition refusing :: provider where
  "refusing = \<lparr>listing = scenario, failing = [''ami-3''], describeError = None\<rparr>"

definition unreachable :: provider where
  "unreachable =
     \<lparr>listing = scenario, failing = [], describeError = Some (AwsError ''RequestLimitExceeded'')\<rparr>"

text \<open>
  The events of a run on the scenario that keeps one image: up to the snapshot call
  for \<^verbatim>\<open>ami-2\<close>, up to the deregister call for \<^verbatim>\<open>ami-3\<close>, and all of them when no call
  fails.
\<close>

definition uptoSnapshot :: "event list" where
  "uptoSnapshot =
     [LogPrint ''Running Amazon AMI Management post-processor'',
      LogPrint ''Describing images for generation management'',
      DescribeImagesCall ''web'' None,
      LogPrint ''Deleting old images...'',
      UiMessage ''Deleting image: ami-2'',
      LogPrint ''Deleting image AMI (ami-2)'',
      DeregisterImageCall ''ami-2'' None,
      LogPrint ''Deleting snapshot related to AMI (ami-2)'',
      LogPrint ''Deleting snapshot (snap-2) related to AMI (ami-2)'']"

definition uptoThird :: "event list" where
  "uptoThird =
     uptoSnapshot @ DeleteSnapshotCall ''ami-2'' ''snap-2'' None
       # [UiMessage ''Deleting image: ami-3'', LogPrint ''Deleting image AMI (ami-3)'']"

definition healthyEvents :: "event list" where
  "healthyEvents =
     uptoThird @ [DeregisterImageCall ''ami-3'' None,
                  LogPrint ''Deleting snapshot related to AMI (ami-3)'']"

text \<open>
  A listing with a timestamp that does not parse, and one where the only timestamp that
  parses is the zero time itself.
\<close>

definition mixed :: "Image list" where
  "mixed =
     [mkImage ''ami-bad'' ''not-a-date'' [],
      mkImage ''ami-new'' ''2020-01-02T00:00:00.000Z'' [],
      mkImage ''ami-old'' ''2019-01-02T00:00:00.000Z'' []]"

definition ancient :: "Image list" where
  "ancient =
     [mkImage ''ami-0001'' ''0001-01-01T00:00:00.000Z'' [],
      mkImage ''ami-bad'' ''not-a-date'' []]"





section \<open>Observing a run\<close>

text \<open>
  The creation time the sort compares an image by: the parsed \<^verbatim>\<open>CreationDate\<close>, the zero
  time when it does not parse, nothing when the field is nil. \<open>newerEq a b\<close> says that \<open>b\<close>
  is not after \<open>a\<close>, which is the order of a listing sorted most recent first.
\<close>

definition createdAt :: "(string \<Rightarrow> Time option) \<Rightarrow> Image \<Rightarrow> Time option" where
  "createdAt parse img = map_option (timeOf parse) (CreationDate img)"

definition newerEq :: "(string \<Rightarrow> Time option) \<Rightarrow> Image \<Rightarrow> Image \<Rightarrow> bool" where
  "newerEq parse a b =
     (case (createdAt parse a, createdAt parse b) of
        (Some ta, Some tb) \<Rightarrow> \<not> After tb ta
      | _ \<Rightarrow> False)"

text \<open>An image whose timestamp is there and does not parse, and one that parses to an
  instant after the zero time.\<close>

definition malformed :: "(string \<Rightarrow> Time option) \<Rightarrow> Image \<Rightarrow> bool" where
  "malformed parse img = (case CreationDate img of None \<Rightarrow> False | Some c \<Rightarrow> parse c = None)"

definition afterZero :: "(string \<Rightarrow> Time option) \<Rightarrow> Image \<Rightarrow> bool" where
  "afterZero parse img = (case createdAt parse img of None \<Rightarrow> False | Some t \<Rightarrow> After t zeroTime)"

text \<open>The error a provider call returned, and the errors of a run in order.\<close>

fun failure :: "event \<Rightarrow> error option" where
  "failure (DescribeImagesCall ident r) = r"
| "failure (DeregisterImageCall iid r) = r"
| "failure (DeleteSnapshotCall iid sid r) = r"
| "failure ev = None"

fun failures :: "event list \<Rightarrow> error list" where
  "failures [] = []"
| "failures (ev # evs) = (case failure ev of None \<Rightarrow> failures evs | Some e \<Rightarrow> e # failures evs)"

text \<open>
  The images a run asked the provider to deregister, those it deregistered, the
  snapshots it asked to delete, and the messages it showed, each in order.
\<close>

fun deregisterCalls :: "event list \<Rightarrow> string list" where
  "deregisterCalls [] = []"
| "deregisterCalls (DeregisterImageCall iid r # evs) = iid # deregisterCalls evs"
| "deregisterCalls (ev # evs) = deregisterCalls evs"

fun deregistered :: "event list \<Rightarrow> string list" where
  "deregistered [] = []"
| "deregistered (DeregisterImageCall iid None # evs) = iid # deregistered evs"
| "deregistered (ev # evs) = deregistered evs"

fun snapshotCalls :: "event list \<Rightarrow> string list" where
  "snapshotCalls [] = []"
| "snapshotCalls (DeleteSnapshotCall iid sid r # evs) = sid # snapshotCalls evs"
| "snapshotCalls (ev # evs) = snapshotCalls evs"

fun uiMessages :: "event list \<Rightarrow> string list" where
  "uiMessages [] = []"
| "uiMessages (UiMessage msg # evs) = msg # uiMessages evs"
| "uiMessages (ev # evs) = uiMessages evs"




subsection \<open>Notions for the proofs\<close>

text \<open>
  The sort key with the zero time for a nil field, listings where no field is nil, and
  the invariant of the outer loop of the sort: the first \<open>n\<close> places hold their final
  images.
\<close>

definition timeKey :: "(string \<Rightarrow> Time option) \<Rightarrow> Image \<Rightarrow> Time" where
  "timeKey parse img = (case CreationDate img of None \<Rightarrow> zeroTime | Some c \<Rightarrow> timeOf parse c)"

definition dated :: "Image list \<Rightarrow> bool" where
  "dated images = (\<forall>img \<in> set images. CreationDate img \<noteq> None)"

definition settled :: "(string \<Rightarrow> Time option) \<Rightarrow> nat \<Rightarrow> Image list \<Rightarrow> bool" where
  "settled parse n xs =
     (\<forall>i j. i < j \<and> j < length xs \<and> i < n \<longrightarrow> timeKey parse (xs ! j) \<le> timeKey parse (xs ! i))"

text \<open>
  A monitor for the order of calls: \<open>cur\<close> is the last deregister call with its result,
  and a snapshot call passes only when that call was for its image and returned no error.
\<close>

fun cascade :: "(string \<times> error option) option \<Rightarrow> event list \<Rightarrow> bool" where
  "cascade cur [] = True"
| "cascade cur (DeregisterImageCall iid r # evs) = cascade (Some (iid, r)) evs"
| "cascade cur (DeleteSnapshotCall iid sid r # evs) = (cur = Some (iid, None) \<and> cascade cur evs)"
| "cascade cur (ev # evs) = cascade cur evs"

text \<open>A loop that ended with an error made exactly one failing call, its last event.\<close>

definition failOK :: "status \<Rightarrow> event list \<Rightarrow> bool" where
  "failOK st evs =
     (case st of
        Failed e \<Rightarrow> failures evs = [e] \<and> evs \<noteq> [] \<and> failure (last evs) = Some e
      | _ \<Rightarrow> failures evs = [])"

text \<open>Every deregister call comes right after the two lines that announce it.\<close>

definition announced :: "event list \<Rightarrow> bool" where
  "announced evs =
     (\<forall>pre iid r post. evs = pre @ DeregisterImageCall iid r # post \<longrightarrow>
        (\<exists>pre'. pre = pre' @ [UiMessage (msgDeletingImage iid), LogPrint (logDeletingImage iid)]))"

section \<open>The sort orders the listing\<close>

lemma lessFunc_dated:
  "dated xs \<Longrightarrow> i < length xs \<Longrightarrow> j < length xs \<Longrightarrow>
   lessFunc parse i j xs = Some (timeKey parse (xs ! j) < timeKey parse (xs ! i))"
proof -
  assume d: "dated xs" and i: "i < length xs" and j: "j < length xs"
  from d i obtain ci where ci: "CreationDate (xs ! i) = Some ci"
    unfolding dated_def using nth_mem [OF i] by blast
  from d j obtain cj where cj: "CreationDate (xs ! j) = Some cj"
    unfolding dated_def using nth_mem [OF j] by blast
  show ?thesis
    using i j ci cj by (simp add: lessFunc_def timeKey_def After_def)
qed

declare sort_inner.simps [simp del] sort_outer.simps [simp del]

lemma sort_inner_done: "\<not> n < m \<Longrightarrow> sort_inner lessF swapF n m s = Some s"
  by (subst sort_inner.simps) simp

lemma sort_inner_step:
  "n < Suc m \<Longrightarrow> lessF m (Suc m) s = Some b \<Longrightarrow> swapF m (Suc m) s = Some s' \<Longrightarrow>
   sort_inner lessF swapF n (Suc m) s = sort_inner lessF swapF n m (if b then s else s')"
  by (subst sort_inner.simps) simp

lemma dated_mset: "mset ys = mset xs \<Longrightarrow> dated ys = dated xs"
  by (auto simp: dated_def dest: mset_eq_setD)

lemma swap_mset:
  "Suc m < length xs \<Longrightarrow> mset (xs[m := xs ! Suc m, Suc m := xs ! m]) = mset xs"
  by (simp add: mset_swap)

lemma sort_inner_images:
  assumes "dated xs" "n \<le> m" "m < length xs"
  shows "\<exists>ys. sort_inner (lessFunc parse) swapFunc n m xs = Some ys
          \<and> mset ys = mset xs \<and> take n ys = take n xs
          \<and> ((\<forall>j. m \<le> j \<and> j < length xs \<longrightarrow> timeKey parse (xs ! j) \<le> timeKey parse (xs ! m))
               \<longrightarrow> (\<forall>j. n \<le> j \<and> j < length xs \<longrightarrow> timeKey parse (ys ! j) \<le> timeKey parse (ys ! n)))"
  using assms
proof (induction m arbitrary: xs)
  case 0
  then show ?case by (simp add: sort_inner_done)
next
  case (Suc m)
  show ?case
  proof (cases "n < Suc m")
    case False
    with Suc.prems have "n = Suc m" by simp
    then show ?thesis by (simp add: sort_inner_done)
  next
    case True
    define b where "b = (timeKey parse (xs ! Suc m) < timeKey parse (xs ! m))"
    define xs' where "xs' = (if b then xs else xs[m := xs ! Suc m, Suc m := xs ! m])"
    have less: "lessFunc parse m (Suc m) xs = Some b"
      using Suc.prems by (simp add: lessFunc_dated b_def)
    have swap: "swapFunc m (Suc m) xs = Some (xs[m := xs ! Suc m, Suc m := xs ! m])"
      using Suc.prems by (simp add: swapFunc_def)
    have step: "sort_inner (lessFunc parse) swapFunc n (Suc m) xs
                = sort_inner (lessFunc parse) swapFunc n m xs'"
      unfolding xs'_def by (rule sort_inner_step [where lessF="lessFunc parse" and swapF=swapFunc, OF True less swap])
    have ms: "mset xs' = mset xs"
      using Suc.prems by (simp add: xs'_def swap_mset)
    have len: "length xs' = length xs"
      by (simp add: xs'_def)
    have nm: "n \<le> m" using True by simp
    have tk: "take n xs' = take n xs"
      using nm by (simp add: xs'_def)
    have d': "dated xs'" using dated_mset [OF ms] Suc.prems(1) by simp
    from Suc.IH [OF d'] nm Suc.prems len
    obtain ys where ys: "sort_inner (lessFunc parse) swapFunc n m xs' = Some ys"
      "mset ys = mset xs'" "take n ys = take n xs'"
      "(\<forall>j. m \<le> j \<and> j < length xs' \<longrightarrow> timeKey parse (xs' ! j) \<le> timeKey parse (xs' ! m))
               \<longrightarrow> (\<forall>j. n \<le> j \<and> j < length xs' \<longrightarrow> timeKey parse (ys ! j) \<le> timeKey parse (ys ! n))"
      by (metis less_Suc_eq_le Suc_lessD)
    have mx: "\<forall>j. m \<le> j \<and> j < length xs' \<longrightarrow> timeKey parse (xs' ! j) \<le> timeKey parse (xs' ! m)"
      if h: "\<forall>j. Suc m \<le> j \<and> j < length xs \<longrightarrow> timeKey parse (xs ! j) \<le> timeKey parse (xs ! Suc m)"
    proof (intro allI impI)
      fix j assume j: "m \<le> j \<and> j < length xs'"
      show "timeKey parse (xs' ! j) \<le> timeKey parse (xs' ! m)"
      proof (cases b)
        case True
        then have [simp]: "xs' = xs" by (simp add: xs'_def)
        show ?thesis
        proof (cases "j = m")
          case True then show ?thesis by simp
        next
          case False
          with j have "Suc m \<le> j" by simp
          with h j have "timeKey parse (xs ! j) \<le> timeKey parse (xs ! Suc m)" by simp
          with \<open>b\<close> show ?thesis by (simp add: b_def)
        qed
      next
        case False
        then have e: "xs' = xs[m := xs ! Suc m, Suc m := xs ! m]" by (simp add: xs'_def)
        have m': "xs' ! m = xs ! Suc m" using Suc.prems by (simp add: e)
        consider "j = m" | "j = Suc m" | "Suc (Suc m) \<le> j" using j by linarith
        then show ?thesis
        proof cases
          case 1 then show ?thesis by simp
        next
          case 2
          then have "xs' ! j = xs ! m" using Suc.prems by (simp add: e)
          with False m' show ?thesis by (simp add: b_def)
        next
          case 3
          then have "xs' ! j = xs ! j" by (simp add: e)
          moreover have "timeKey parse (xs ! j) \<le> timeKey parse (xs ! Suc m)" using h j 3 len by simp
          ultimately show ?thesis using m' by simp
        qed
      qed
    qed
    show ?thesis
      using ys ms tk mx len step by auto
  qed
qed

lemma drop_mset_eq:
  assumes "mset ys = mset xs" "take n ys = take n xs"
  shows "mset (drop n ys) = mset (drop n xs)"
proof -
  have "mset (take n ys) + mset (drop n ys) = mset (take n xs) + mset (drop n xs)"
    using assms(1) by (metis append_take_drop_id mset_append)
  then show ?thesis using assms(2) by simp
qed

lemma settled_sorted:
  "settled parse n xs \<Longrightarrow> \<not> int n < int (length xs) - 1 \<Longrightarrow>
   sorted_wrt (\<lambda>a b. timeKey parse b \<le> timeKey parse a) xs"
  by (auto simp: settled_def sorted_wrt_iff_nth_less)

lemma sort_outer_done: "\<not> int n < int len - 1 \<Longrightarrow> sort_outer lessF swapF len n s = Some s"
  by (subst sort_outer.simps) simp

lemma sort_outer_step:
  "int n < int len - 1 \<Longrightarrow> sort_inner lessF swapF n (len - 1) s = Some s' \<Longrightarrow>
   sort_outer lessF swapF len n s = sort_outer lessF swapF len (Suc n) s'"
  by (subst sort_outer.simps) simp

lemma in_set_drop_iff:
  "x \<in> set (drop n xs) \<longleftrightarrow> (\<exists>j. n \<le> j \<and> j < length xs \<and> xs ! j = x)"
proof
  assume "x \<in> set (drop n xs)"
  then obtain k where k: "k < length (drop n xs)" "drop n xs ! k = x"
    by (auto simp: in_set_conv_nth)
  then have "n \<le> n + k \<and> n + k < length xs \<and> xs ! (n + k) = x" by auto
  then show "\<exists>j. n \<le> j \<and> j < length xs \<and> xs ! j = x" by blast
next
  assume "\<exists>j. n \<le> j \<and> j < length xs \<and> xs ! j = x"
  then obtain j where j: "n \<le> j" "j < length xs" "xs ! j = x" by blast
  then have "j - n < length (drop n xs)" "drop n xs ! (j - n) = x" by auto
  then show "x \<in> set (drop n xs)" by (metis nth_mem)
qed

lemma settled_step:
  assumes inv: "settled parse n xs" and ms: "mset ys = mset xs" and tk: "take n ys = take n xs"
    and mx: "\<forall>j. n \<le> j \<and> j < length xs \<longrightarrow> timeKey parse (ys ! j) \<le> timeKey parse (ys ! n)"
  shows "settled parse (Suc n) ys"
  unfolding settled_def
proof (intro allI impI)
  fix i j assume a: "i < j \<and> j < length ys \<and> i < Suc n"
  have len: "length ys = length xs" using ms by (rule mset_eq_length)
  show "timeKey parse (ys ! j) \<le> timeKey parse (ys ! i)"
  proof (cases "i = n")
    case True
    with a len mx show ?thesis by simp
  next
    case False
    with a have i: "i < n" by simp
    have yi: "ys ! i = xs ! i" using i tk by (metis nth_take)
    show ?thesis
    proof (cases "j < n")
      case True
      then have "ys ! j = xs ! j" using tk by (metis nth_take)
      with yi inv a len i show ?thesis unfolding settled_def by metis
    next
      case False
      then have "n \<le> j \<and> j < length ys \<and> ys ! j = ys ! j" using a by simp
      then have "ys ! j \<in> set (drop n ys)"
        unfolding in_set_drop_iff by blast
      then have "ys ! j \<in> set (drop n xs)"
        using drop_mset_eq [OF ms tk] by (metis mset_eq_setD)
      then obtain j' where "n \<le> j'" "j' < length xs" "xs ! j' = ys ! j"
        by (auto simp: in_set_drop_iff)
      with inv i yi show ?thesis
        unfolding settled_def by (metis less_le_trans)
    qed
  qed
qed

lemma sort_outer_images:
  assumes "dated xs" "length xs = len" "settled parse n xs"
  shows "\<exists>ys. sort_outer (lessFunc parse) swapFunc len n xs = Some ys \<and> mset ys = mset xs
          \<and> sorted_wrt (\<lambda>a b. timeKey parse b \<le> timeKey parse a) ys"
  using assms
proof (induction "len - n" arbitrary: n xs)
  case 0
  then have "\<not> int n < int len - 1" by simp
  with 0 show ?case by (simp add: sort_outer_done settled_sorted)
next
  case (Suc k)
  show ?case
  proof (cases "int n < int len - 1")
    case False
    with Suc.prems show ?thesis by (simp add: sort_outer_done settled_sorted)
  next
    case True
    then have b: "n \<le> len - 1" "len - 1 < length xs" using Suc.prems by auto
    from sort_inner_images [OF Suc.prems(1) b, of parse]
    obtain ys where ys: "sort_inner (lessFunc parse) swapFunc n (len - 1) xs = Some ys"
      "mset ys = mset xs" "take n ys = take n xs"
      "(\<forall>j. len - 1 \<le> j \<and> j < length xs \<longrightarrow> timeKey parse (xs ! j) \<le> timeKey parse (xs ! (len - 1)))
        \<longrightarrow> (\<forall>j. n \<le> j \<and> j < length xs \<longrightarrow> timeKey parse (ys ! j) \<le> timeKey parse (ys ! n))"
      by blast
    have "\<forall>j. len - 1 \<le> j \<and> j < length xs \<longrightarrow> timeKey parse (xs ! j) \<le> timeKey parse (xs ! (len - 1))"
    proof (intro allI impI)
      fix j assume "len - 1 \<le> j \<and> j < length xs"
      then have "j = len - 1" using Suc.prems(2) by linarith
      then show "timeKey parse (xs ! j) \<le> timeKey parse (xs ! (len - 1))" by simp
    qed
    with ys(4) have mx: "\<forall>j. n \<le> j \<and> j < length xs \<longrightarrow> timeKey parse (ys ! j) \<le> timeKey parse (ys ! n)"
      by blast
    have inv': "settled parse (Suc n) ys"
      by (rule settled_step [OF Suc.prems(3) ys(2) ys(3) mx])
    have d': "dated ys" using dated_mset [OF ys(2)] Suc.prems(1) by simp
    have l': "length ys = len" using mset_eq_length [OF ys(2)] Suc.prems(2) by simp
    have k: "k = len - Suc n" using Suc.hyps(2) by simp
    from Suc.hyps(1) [OF k d' l' inv']
    obtain zs where zs: "sort_outer (lessFunc parse) swapFunc len (Suc n) ys = Some zs"
      "mset zs = mset ys" "sorted_wrt (\<lambda>a b. timeKey parse b \<le> timeKey parse a) zs"
      by blast
    have "sort_outer (lessFunc parse) swapFunc len n xs = Some zs"
      using sort_outer_step [where lessF="lessFunc parse" and swapF=swapFunc, OF True ys(1)] zs(1)
      by simp
    with zs ys(2) show ?thesis by simp
  qed
qed

lemma sortImages_sorted:
  assumes "dated xs"
  shows "\<exists>ys. sortImages parse xs = Some ys \<and> mset ys = mset xs
          \<and> sorted_wrt (\<lambda>a b. timeKey parse b \<le> timeKey parse a) ys"
  unfolding sortImages_def sort_fn_def
  by (rule sort_outer_images [OF assms refl]) (simp add: settled_def)

lemma lessFunc_Some:
  "lessFunc parse i j xs = Some b \<Longrightarrow>
   i < length xs \<and> j < length xs \<and> CreationDate (xs ! i) \<noteq> None \<and> CreationDate (xs ! j) \<noteq> None"
  by (auto simp: lessFunc_def split: if_splits option.splits)

lemma sort_inner_Suc_Some:
  assumes "sort_inner lessF swapF n (Suc m) s = Some t" "n < Suc m"
  obtains b s' where "lessF m (Suc m) s = Some b" "sort_inner lessF swapF n m s' = Some t"
    "s' = s \<or> swapF m (Suc m) s = Some s'"
proof -
  from assms have "(case lessF m (Suc m) s of
           None \<Rightarrow> None
         | Some b \<Rightarrow>
             if \<not> b then
               (case swapF m (Suc m) s of
                  None \<Rightarrow> None
                | Some s' \<Rightarrow> sort_inner lessF swapF n m s')
             else sort_inner lessF swapF n m s) = Some t"
    by (subst (asm) sort_inner.simps) (simp cong: option.case_cong if_cong)
  then show ?thesis
    using that by (auto split: option.splits if_splits)
qed

lemma sort_inner_Some_dated:
  "sort_inner (lessFunc parse) swapFunc n m xs = Some ys \<Longrightarrow> n < m \<Longrightarrow>
   n \<le> j \<Longrightarrow> j \<le> m \<Longrightarrow> CreationDate (xs ! j) \<noteq> None"
proof (induction m arbitrary: xs)
  case 0
  then show ?case by simp
next
  case (Suc m)
  from Suc.prems(1,2) obtain b xs' where
    less: "lessFunc parse m (Suc m) xs = Some b" and
    rec: "sort_inner (lessFunc parse) swapFunc n m xs' = Some ys" and
    xs': "xs' = xs \<or> swapFunc m (Suc m) xs = Some xs'"
    by (rule sort_inner_Suc_Some [where lessF="lessFunc parse" and swapF=swapFunc])
  from lessFunc_Some [OF less] have
    here: "CreationDate (xs ! m) \<noteq> None" "CreationDate (xs ! Suc m) \<noteq> None" by simp_all
  show ?case
  proof (cases "j < m")
    case True
    then have nm: "n < m" using Suc.prems(3) by simp
    have "CreationDate (xs' ! j) \<noteq> None"
      using Suc.IH [OF rec nm Suc.prems(3)] True by simp
    moreover have "xs' ! j = xs ! j"
      using xs' True by (auto simp: swapFunc_def split: if_splits)
    ultimately show ?thesis by simp
  next
    case False
    with Suc.prems(4) have "j = m \<or> j = Suc m" by linarith
    with here show ?thesis by auto
  qed
qed

lemma sortImages_Some_dated:
  assumes "sortImages parse xs = Some ys" "2 \<le> length xs"
  shows "dated xs"
proof -
  have c: "int 0 < int (length xs) - 1" using assms(2) by simp
  from assms(1) have "sort_outer (lessFunc parse) swapFunc (length xs) 0 xs = Some ys"
    by (simp add: sortImages_def sort_fn_def)
  then obtain zs where zs: "sort_inner (lessFunc parse) swapFunc 0 (length xs - 1) xs = Some zs"
    using c by (subst (asm) sort_outer.simps) (auto split: option.splits)
  have "CreationDate img \<noteq> None" if "img \<in> set xs" for img
  proof -
    from that obtain j where j: "j < length xs" "xs ! j = img" by (auto simp: in_set_conv_nth)
    then have "CreationDate (xs ! j) \<noteq> None"
      using sort_inner_Some_dated [OF zs, of j] assms(2) by simp
    with j show ?thesis by simp
  qed
  then show ?thesis by (simp add: dated_def)
qed

lemma sortImages_short: "length xs \<le> 1 \<Longrightarrow> sortImages parse xs = Some xs"
  by (simp add: sortImages_def sort_fn_def sort_outer_done)

lemma newerEq_timeKey:
  "CreationDate a \<noteq> None \<Longrightarrow> CreationDate b \<noteq> None \<Longrightarrow>
   newerEq parse a b = (timeKey parse b \<le> timeKey parse a)"
  by (auto simp: newerEq_def createdAt_def timeKey_def After_def)

lemma sortImages_spec:
  assumes "sortImages parse xs = Some ys"
  shows "mset ys = mset xs \<and> sorted_wrt (newerEq parse) ys"
proof (cases "2 \<le> length xs")
  case True
  from sortImages_Some_dated [OF assms True] have d: "dated xs" .
  from sortImages_sorted [OF d, of parse] assms
  have ms: "mset ys = mset xs" and st: "sorted_wrt (\<lambda>a b. timeKey parse b \<le> timeKey parse a) ys" by auto
  have "dated ys" using dated_mset [OF ms] d by simp
  then have "sorted_wrt (newerEq parse) ys"
    using st by (auto simp: dated_def newerEq_timeKey elim!: sorted_wrt_mono_rel [rotated])
  with ms show ?thesis by simp
next
  case False
  then have l: "length xs \<le> 1" by simp
  with assms sortImages_short [OF l, of parse] have "ys = xs" by simp
  moreover have "sorted_wrt (newerEq parse) xs"
    using l by (cases xs) (auto simp: le_Suc_eq)
  ultimately show ?thesis by simp
qed

section \<open>The events of the loops\<close>

lemma failures_append: "failures (a @ b) = failures a @ failures b"
  by (induction a) (auto split: option.splits)

lemma deregisterCalls_append: "deregisterCalls (a @ b) = deregisterCalls a @ deregisterCalls b"
  by (induction a rule: deregisterCalls.induct) auto

lemma deregistered_append: "deregistered (a @ b) = deregistered a @ deregistered b"
  by (induction a rule: deregistered.induct) auto

lemma uiMessages_append: "uiMessages (a @ b) = uiMessages a @ uiMessages b"
  by (induction a rule: uiMessages.induct) auto

lemma failOK_append: "failures a = [] \<Longrightarrow> failOK st b \<Longrightarrow> failOK st (a @ b)"
  by (auto simp: failOK_def failures_append split: status.splits)

lemma failOK_Cons: "failure ev = None \<Longrightarrow> failOK st evs \<Longrightarrow> failOK st (ev # evs)"
  using failOK_append [of "[ev]" st evs] by simp

lemma failOK_Done: "failOK Done evs \<Longrightarrow> failures evs = []"
  by (simp add: failOK_def)

lemma deleteSnapshots_Cons_cases:
  assumes "deleteSnapshots conn iid (device # rest) s = (st, s', evs)"
  obtains
    (ephemeral) "Ebs device = None" "deleteSnapshots conn iid rest s = (st, s', evs)"
  | (nil) ebs where "Ebs device = Some ebs" "SnapshotId ebs = None" "st = Panic" "s' = s" "evs = []"
  | (failed) ebs sid e where "Ebs device = Some ebs" "SnapshotId ebs = Some sid"
      "DeleteSnapshot conn sid s = (Some e, s')" "st = Failed e"
      "evs = [LogPrint (logDeletingSnapshot sid iid), DeleteSnapshotCall iid sid (Some e)]"
  | (deleted) ebs sid s1 evs' where "Ebs device = Some ebs" "SnapshotId ebs = Some sid"
      "DeleteSnapshot conn sid s = (None, s1)" "deleteSnapshots conn iid rest s1 = (st, s', evs')"
      "evs = [LogPrint (logDeletingSnapshot sid iid), DeleteSnapshotCall iid sid None] @ evs'"
  using assms by (auto split: option.splits prod.splits simp: Let_def)

lemma deleteSnapshots_failOK:
  "deleteSnapshots conn iid devices s = (st, s', evs) \<Longrightarrow> failOK st evs"
proof (induction devices arbitrary: s evs)
  case Nil
  then show ?case by (auto simp: failOK_def)
next
  case (Cons device rest)
  from Cons.prems show ?case
  proof (cases rule: deleteSnapshots_Cons_cases)
    case ephemeral
    from Cons.IH [OF ephemeral(2)] show ?thesis .
  next
    case (nil ebs)
    then show ?thesis by (simp add: failOK_def)
  next
    case (failed ebs sid e)
    then show ?thesis by (simp add: failOK_def)
  next
    case (deleted ebs sid s1 evs')
    from Cons.IH [OF deleted(4)] show ?thesis
      unfolding deleted(5) by (rule failOK_append [rotated]) simp
  qed
qed

lemma deleteSnapshots_quiet:
  "deleteSnapshots conn iid devices s = (st, s', evs) \<Longrightarrow>
   deregisterCalls evs = [] \<and> deregistered evs = [] \<and> uiMessages evs = []
   \<and> cascade (Some (iid, None)) evs"
proof (induction devices arbitrary: s evs)
  case Nil
  then show ?case by auto
next
  case (Cons device rest)
  from Cons.prems show ?case
  proof (cases rule: deleteSnapshots_Cons_cases)
    case ephemeral
    from Cons.IH [OF ephemeral(2)] show ?thesis .
  next
    case (nil ebs)
    then show ?thesis by simp
  next
    case (failed ebs sid e)
    then show ?thesis by simp
  next
    case (deleted ebs sid s1 evs')
    from Cons.IH [OF deleted(4)] show ?thesis
      unfolding deleted(5) by simp
  qed
qed

lemma announced_quiet: "deregisterCalls evs = [] \<Longrightarrow> announced evs"
  by (auto simp: announced_def deregisterCalls_append)

lemma announced_append:
  assumes "announced a" "announced b"
  shows "announced (a @ b)"
  unfolding announced_def
proof (intro allI impI)
  fix pre iid r post
  assume eq: "a @ b = pre @ DeregisterImageCall iid r # post"
  then consider (left) us where "a = pre @ DeregisterImageCall iid r # us"
    | (right) us where "pre = a @ us" "b = us @ DeregisterImageCall iid r # post"
    by (auto simp: append_eq_append_conv2 append_eq_Cons_conv Cons_eq_append_conv)
  then show "\<exists>pre'. pre = pre' @ [UiMessage (msgDeletingImage iid), LogPrint (logDeletingImage iid)]"
  proof cases
    case left
    with assms(1) show ?thesis unfolding announced_def by blast
  next
    case right
    with assms(2) obtain p where "us = p @ [UiMessage (msgDeletingImage iid), LogPrint (logDeletingImage iid)]"
      unfolding announced_def by blast
    with right(1) show ?thesis by simp
  qed
qed

lemma announced_one:
  "announced [UiMessage (msgDeletingImage iid), LogPrint (logDeletingImage iid), DeregisterImageCall iid r]"
  by (auto simp: announced_def append_eq_Cons_conv Cons_eq_append_conv)

lemma cascade_any_append:
  "cascade cur a \<Longrightarrow> (\<And>c. cascade c b) \<Longrightarrow> cascade cur (a @ b)"
  by (induction cur a rule: cascade.induct) auto

lemma deleteImage_cases:
  assumes "deleteImage conn img s = (st, s', evs)"
  obtains
    (nil) "ImageId img = None" "st = Panic" "s' = s" "evs = []"
  | (failed) iid e where "ImageId img = Some iid" "DeregisterImage conn iid s = (Some e, s')"
      "st = Failed e"
      "evs = [UiMessage (msgDeletingImage iid), LogPrint (logDeletingImage iid),
              DeregisterImageCall iid (Some e)]"
  | (deregistered) iid s1 evs' where "ImageId img = Some iid"
      "DeregisterImage conn iid s = (None, s1)"
      "deleteSnapshots conn iid (BlockDeviceMappings img) s1 = (st, s', evs')"
      "evs = [UiMessage (msgDeletingImage iid), LogPrint (logDeletingImage iid),
              DeregisterImageCall iid None] @ LogPrint (logDeletingSnapshots iid) # evs'"
  using assms
  by (auto simp: deleteImage_def Let_def split: option.splits prod.splits)

lemma deleteImage_props:
  assumes "deleteImage conn img s = (st, s', evs)"
  shows "failOK st evs" and "cascade cur evs" and "announced evs"
    and "map Some (deregisterCalls evs) = (case ImageId img of None \<Rightarrow> [] | Some iid \<Rightarrow> [Some iid])"
    and "uiMessages evs = map msgDeletingImage (deregisterCalls evs)"
    and "st = Done \<Longrightarrow> deregistered evs = deregisterCalls evs"
    and "st = Done \<Longrightarrow> ImageId img \<noteq> None"
proof -
  from assms show "failOK st evs"
  proof (cases rule: deleteImage_cases)
    case (deregistered iid s1 evs')
    from deleteSnapshots_failOK [OF deregistered(3)] show ?thesis
      unfolding deregistered(4) by (intro failOK_append failOK_Cons) simp_all
  qed (simp_all add: failOK_def)
  from assms show "cascade cur evs"
  proof (cases rule: deleteImage_cases)
    case (deregistered iid s1 evs')
    with deleteSnapshots_quiet [OF deregistered(3)] show ?thesis by simp
  qed simp_all
  from assms show "announced evs"
  proof (cases rule: deleteImage_cases)
    case nil
    then show ?thesis by (simp add: announced_quiet)
  next
    case (failed iid e)
    then show ?thesis by (simp add: announced_one)
  next
    case (deregistered iid s1 evs')
    have "announced (LogPrint (logDeletingSnapshots iid) # evs')"
      using deleteSnapshots_quiet [OF deregistered(3)] by (intro announced_quiet) simp
    then show ?thesis
      unfolding deregistered(4) by (intro announced_append announced_one)
  qed
  from assms show "map Some (deregisterCalls evs) = (case ImageId img of None \<Rightarrow> [] | Some iid \<Rightarrow> [Some iid])"
  proof (cases rule: deleteImage_cases)
    case (deregistered iid s1 evs')
    with deleteSnapshots_quiet [OF deregistered(3)] show ?thesis by simp
  qed simp_all
  from assms show "uiMessages evs = map msgDeletingImage (deregisterCalls evs)"
  proof (cases rule: deleteImage_cases)
    case (deregistered iid s1 evs')
    with deleteSnapshots_quiet [OF deregistered(3)] show ?thesis by simp
  qed simp_all
  from assms show "st = Done \<Longrightarrow> deregistered evs = deregisterCalls evs"
  proof (cases rule: deleteImage_cases)
    case (deregistered iid s1 evs')
    with deleteSnapshots_quiet [OF deregistered(3)] show ?thesis by simp
  qed simp_all
  from assms show "st = Done \<Longrightarrow> ImageId img \<noteq> None"
    by (cases rule: deleteImage_cases) simp_all
qed

lemma deleteImages_Cons_cases:
  assumes "deleteImages conn k i (img # rest) s = (st, s', evs)"
  obtains
    (kept) "int i < k" "deleteImages conn k (Suc i) rest s = (st, s', evs)"
  | (stopped) "\<not> int i < k" "deleteImage conn img s = (st, s', evs)" "st \<noteq> Done"
  | (continued) s1 evs1 evs2 where "\<not> int i < k" "deleteImage conn img s = (Done, s1, evs1)"
      "deleteImages conn k (Suc i) rest s1 = (st, s', evs2)" "evs = evs1 @ evs2"
  using assms
  by (auto split: if_splits prod.splits status.splits)

lemma kept_drop: "int i < k \<Longrightarrow> drop (nat k - i) (img # rest) = drop (nat k - Suc i) rest"
proof -
  assume "int i < k"
  then have "nat k - i = Suc (nat k - Suc i)" by linarith
  then show ?thesis by simp
qed

lemma unkept_drop: "\<not> int i < k \<Longrightarrow> nat k - i = 0 \<and> nat k - Suc i = 0"
  by linarith

lemma deleteImages_failOK:
  "deleteImages conn k i imgs s = (st, s', evs) \<Longrightarrow> failOK st evs"
proof (induction imgs arbitrary: i s evs)
  case Nil
  then show ?case by (auto simp: failOK_def)
next
  case (Cons img rest)
  from Cons.prems show ?case
  proof (cases rule: deleteImages_Cons_cases)
    case kept
    from Cons.IH [OF kept(2)] show ?thesis .
  next
    case stopped
    from deleteImage_props(1) [OF stopped(2)] show ?thesis .
  next
    case (continued s1 evs1 evs2)
    have "failures evs1 = []"
      using deleteImage_props(1) [OF continued(2)] by (rule failOK_Done)
    with Cons.IH [OF continued(3)] show ?thesis
      unfolding continued(4) by (intro failOK_append)
  qed
qed

lemma deleteImages_cascade:
  "deleteImages conn k i imgs s = (st, s', evs) \<Longrightarrow> cascade cur evs"
proof (induction imgs arbitrary: i s evs cur)
  case Nil
  then show ?case by auto
next
  case (Cons img rest)
  from Cons.prems show ?case
  proof (cases rule: deleteImages_Cons_cases)
    case kept
    from Cons.IH [OF kept(2)] show ?thesis .
  next
    case stopped
    from deleteImage_props(2) [OF stopped(2)] show ?thesis .
  next
    case (continued s1 evs1 evs2)
    show ?thesis
      unfolding continued(4)
      using deleteImage_props(2) [OF continued(2)] Cons.IH [OF continued(3)]
      by (rule cascade_any_append)
  qed
qed

lemma deleteImages_announced:
  "deleteImages conn k i imgs s = (st, s', evs) \<Longrightarrow> announced evs"
proof (induction imgs arbitrary: i s evs)
  case Nil
  then show ?case by (auto simp: announced_quiet)
next
  case (Cons img rest)
  from Cons.prems show ?case
  proof (cases rule: deleteImages_Cons_cases)
    case kept
    from Cons.IH [OF kept(2)] show ?thesis .
  next
    case stopped
    from deleteImage_props(3) [OF stopped(2)] show ?thesis .
  next
    case (continued s1 evs1 evs2)
    show ?thesis
      unfolding continued(4)
      using deleteImage_props(3) [OF continued(2)] Cons.IH [OF continued(3)]
      by (rule announced_append)
  qed
qed

lemma deleteImages_calls:
  "deleteImages conn k i imgs s = (st, s', evs) \<Longrightarrow>
   prefix (map Some (deregisterCalls evs)) (map ImageId (drop (nat k - i) imgs))
   \<and> (st = Done \<longrightarrow> map Some (deregisterCalls evs) = map ImageId (drop (nat k - i) imgs))"
proof (induction imgs arbitrary: i s evs)
  case Nil
  then show ?case by auto
next
  case (Cons img rest)
  from Cons.prems show ?case
  proof (cases rule: deleteImages_Cons_cases)
    case kept
    from Cons.IH [OF kept(2)] show ?thesis by (simp add: kept_drop [OF kept(1)])
  next
    case stopped
    from deleteImage_props(4) [OF stopped(2)] stopped(3) unkept_drop [OF stopped(1)]
    show ?thesis by (auto split: option.splits)
  next
    case (continued s1 evs1 evs2)
    from deleteImage_props(4) [OF continued(2)] deleteImage_props(7) [OF continued(2)]
    have "map Some (deregisterCalls evs1) = [ImageId img]" by (auto split: option.splits)
    with Cons.IH [OF continued(3)] unkept_drop [OF continued(1)]
    show ?thesis unfolding continued(4) by (simp add: deregisterCalls_append)
  qed
qed

lemma deleteImages_messages:
  "deleteImages conn k i imgs s = (st, s', evs) \<Longrightarrow>
   uiMessages evs = map msgDeletingImage (deregisterCalls evs)
   \<and> (st = Done \<longrightarrow> deregistered evs = deregisterCalls evs)"
proof (induction imgs arbitrary: i s evs)
  case Nil
  then show ?case by auto
next
  case (Cons img rest)
  from Cons.prems show ?case
  proof (cases rule: deleteImages_Cons_cases)
    case kept
    from Cons.IH [OF kept(2)] show ?thesis .
  next
    case stopped
    from deleteImage_props(5) [OF stopped(2)] stopped(3) show ?thesis by simp
  next
    case (continued s1 evs1 evs2)
    from deleteImage_props(5) [OF continued(2)] deleteImage_props(6) [OF continued(2)]
      Cons.IH [OF continued(3)]
    show ?thesis unfolding continued(4)
      by (simp add: deregisterCalls_append deregistered_append uiMessages_append)
  qed
qed

lemma deleteImages_nothing:
  "length imgs \<le> nat k - i \<Longrightarrow> deleteImages conn k i imgs s = (Done, s, [])"
proof (induction imgs arbitrary: i)
  case Nil
  then show ?case by simp
next
  case (Cons img rest)
  then have "int i < k" "length rest \<le> nat k - Suc i" by auto
  with Cons.IH show ?case by simp
qed

lemma deleteImages_negative:
  "k < 0 \<Longrightarrow> deleteImages conn k i imgs s = deleteImages conn 0 i imgs s"
  by (induction imgs arbitrary: i s) (auto split: prod.splits status.splits)

section \<open>The events of a run\<close>

lemma PostProcess_cases:
  assumes "PostProcess conn parse config artifact s = (res, s', evs)"
  obtains
    (describeFailed) e where "DescribeImages conn tagFilter (Identifier config) s = (Inl e, s')"
      "res = Return None True (Some e)"
      "evs = [LogPrint ''Running Amazon AMI Management post-processor'',
              LogPrint ''Describing images for generation management'',
              DescribeImagesCall (Identifier config) (Some e)]"
  | (sortPanicked) images where "DescribeImages conn tagFilter (Identifier config) s = (Inr images, s')"
      "sortImages parse images = None" "res = Panicked"
      "evs = [LogPrint ''Running Amazon AMI Management post-processor'',
              LogPrint ''Describing images for generation management'',
              DescribeImagesCall (Identifier config) None]"
  | (ran) images s1 ordered st evs' where
      "DescribeImages conn tagFilter (Identifier config) s = (Inr images, s1)"
      "sortImages parse images = Some ordered"
      "deleteImages conn (KeepReleases config) 0 ordered s1 = (st, s', evs')"
      "evs = [LogPrint ''Running Amazon AMI Management post-processor'',
              LogPrint ''Describing images for generation management'',
              DescribeImagesCall (Identifier config) None,
              LogPrint ''Deleting old images...''] @ evs'"
      "res = (case st of Done \<Rightarrow> Return artifact True None
                | Failed e \<Rightarrow> Return None True (Some e) | Panic \<Rightarrow> Panicked)"
  using assms
  by (auto simp: PostProcess_def Let_def split: prod.splits sum.splits option.splits status.splits)

lemma PostProcess_failures:
  assumes "PostProcess conn parse config artifact s = (res, s', evs)"
  shows "case res of
           Return a keep None \<Rightarrow> a = artifact \<and> keep \<and> failures evs = []
         | Return a keep (Some e) \<Rightarrow>
             a = None \<and> keep \<and> failures evs = [e] \<and> evs \<noteq> [] \<and> failure (last evs) = Some e
         | Panicked \<Rightarrow> failures evs = []"
  using assms
proof (cases rule: PostProcess_cases)
  case (ran images s1 ordered st evs')
  have "failOK st evs"
    unfolding ran(4) using deleteImages_failOK [OF ran(3)] by (intro failOK_append) simp_all
  with ran(5) show ?thesis by (auto simp: failOK_def split: status.splits)
qed simp_all

lemma failures_member: "failures evs = [] \<Longrightarrow> ev \<in> set evs \<Longrightarrow> failure ev = None"
  by (induction evs) (auto split: option.splits)

lemma failures_last: "evs \<noteq> [] \<Longrightarrow> failure (last evs) = Some e \<Longrightarrow> failures evs \<noteq> []"
  by (induction evs) (auto split: option.splits if_splits)

lemma failures_split:
  assumes "failures evs = [e']" "failure (last evs) = Some e'" "evs = pre @ ev # post"
    "failure ev = Some e"
  shows "e = e' \<and> post = [] \<and> failures pre = []"
proof -
  from assms(1,3,4) have a: "failures pre @ e # failures post = [e']"
    by (simp add: failures_append)
  then have b: "failures pre = []" "e = e'" "failures post = []"
    by (auto simp: append_eq_Cons_conv)
  have "post = []"
  proof (rule ccontr)
    assume "post \<noteq> []"
    with assms(2,3) have "failure (last post) = Some e'" by simp
    with \<open>post \<noteq> []\<close> have "failures post \<noteq> []" by (rule failures_last)
    with b(3) show False by simp
  qed
  with b show ?thesis by simp
qed

lemma PostProcess_stops:
  assumes "PostProcess conn parse config artifact s = (res, s', evs)"
    and "evs = pre @ ev # post" and "failure ev = Some e"
  shows "res = Return None True (Some e) \<and> post = [] \<and> failures pre = []"
proof (cases res)
  case (Return a keep eo)
  show ?thesis
  proof (cases eo)
    case None
    with Return PostProcess_failures [OF assms(1)] have "failures evs = []" by simp
    from failures_member [OF this, of ev] assms(2,3) show ?thesis by simp
  next
    case (Some e')
    with Return PostProcess_failures [OF assms(1)]
    have f: "a = None" "keep" "failures evs = [e']" "failure (last evs) = Some e'" by simp_all
    from failures_split [OF f(3,4) assms(2,3)] f(1,2) Return Some show ?thesis by simp
  qed
next
  case Panicked
  with PostProcess_failures [OF assms(1)] have "failures evs = []" by simp
  from failures_member [OF this, of ev] assms(2,3) show ?thesis by simp
qed

lemma PostProcess_announced:
  assumes "PostProcess conn parse config artifact s = (res, s', evs)"
  shows "announced evs" and "uiMessages evs = map msgDeletingImage (deregisterCalls evs)"
    and "cascade None evs"
proof -
  from assms show "announced evs"
  proof (cases rule: PostProcess_cases)
    case (ran images s1 ordered st evs')
    show ?thesis unfolding ran(4)
      by (rule announced_append [OF announced_quiet deleteImages_announced [OF ran(3)]]) simp
  qed (simp_all add: announced_quiet)
  from assms show "uiMessages evs = map msgDeletingImage (deregisterCalls evs)"
  proof (cases rule: PostProcess_cases)
    case (ran images s1 ordered st evs')
    with deleteImages_messages [OF ran(3)] show ?thesis by simp
  qed simp_all
  from assms show "cascade None evs"
  proof (cases rule: PostProcess_cases)
    case (ran images s1 ordered st evs')
    with deleteImages_cascade [OF ran(3), of None] show ?thesis by simp
  qed simp_all
qed

lemma failures_deregistered: "failures evs = [] \<Longrightarrow> deregistered evs = deregisterCalls evs"
  by (induction evs rule: deregistered.induct) (auto split: option.splits)

lemma cascade_split:
  "cascade cur (pre @ DeleteSnapshotCall iid sid r # post) \<Longrightarrow>
   (cur = Some (iid, None) \<and> deregisterCalls pre = [])
   \<or> (\<exists>p q. pre = p @ DeregisterImageCall iid None # q \<and> deregisterCalls q = [])"
proof (induction pre arbitrary: cur)
  case Nil
  then show ?case by simp
next
  case (Cons ev pre)
  let ?rest = "pre @ DeleteSnapshotCall iid sid r # post"
  have later: "\<exists>p q. ev # pre = p @ DeregisterImageCall iid None # q \<and> deregisterCalls q = []"
    if "\<exists>p q. pre = p @ DeregisterImageCall iid None # q \<and> deregisterCalls q = []"
  proof -
    from that obtain p q where "pre = p @ DeregisterImageCall iid None # q" "deregisterCalls q = []"
      by blast
    then have "ev # pre = (ev # p) @ DeregisterImageCall iid None # q \<and> deregisterCalls q = []"
      by simp
    then show ?thesis by blast
  qed
  show ?case
  proof (cases "\<exists>iid' r'. ev = DeregisterImageCall iid' r'")
    case True
    then obtain iid' r' where ev: "ev = DeregisterImageCall iid' r'" by blast
    with Cons.prems have "cascade (Some (iid', r')) ?rest" by simp
    from Cons.IH [OF this] show ?thesis
    proof
      assume "Some (iid', r') = Some (iid, None) \<and> deregisterCalls pre = []"
      then have "ev # pre = [] @ DeregisterImageCall iid None # pre \<and> deregisterCalls pre = []"
        using ev by simp
      then show ?thesis by blast
    next
      assume "\<exists>p q. pre = p @ DeregisterImageCall iid None # q \<and> deregisterCalls q = []"
      then show ?thesis using later by blast
    qed
  next
    case False
    then have a: "cascade cur ?rest" using Cons.prems by (cases ev) auto
    have b: "deregisterCalls (ev # pre) = deregisterCalls pre" using False by (cases ev) auto
    from Cons.IH [OF a] show ?thesis
    proof
      assume "cur = Some (iid, None) \<and> deregisterCalls pre = []"
      then show ?thesis using b by simp
    next
      assume "\<exists>p q. pre = p @ DeregisterImageCall iid None # q \<and> deregisterCalls q = []"
      then show ?thesis using later by blast
    qed
  qed
qed

lemma prefix_nth: "prefix xs ys \<Longrightarrow> i < length xs \<Longrightarrow> i < length ys \<and> ys ! i = xs ! i"
  by (auto simp: prefix_def nth_append)









lemma malformed_zero:
  "malformed parse img \<Longrightarrow> createdAt parse img = Some zeroTime \<and> timeKey parse img = zeroTime"
  by (auto simp: malformed_def createdAt_def timeKey_def timeOf_def split: option.splits)

lemma afterZero_timeKey: "afterZero parse img \<Longrightarrow> zeroTime < timeKey parse img"
  by (auto simp: afterZero_def createdAt_def timeKey_def After_def split: option.splits)

lemma filter_length_mset:
  "mset ys = mset xs \<Longrightarrow> length (filter P ys) = length (filter P xs)"
proof -
  assume "mset ys = mset xs"
  then have "mset (filter P ys) = mset (filter P xs)" by simp
  then show ?thesis by (rule mset_eq_length)
qed

text \<open>Concrete runs on the scenario, keeping one image.\<close>

lemma run_healthy:
  "PostProcess testConn time_Parse (mkConfig ''web'' 1) (Some ''artifact'') healthy
   = (Return (Some ''artifact'') True None, healthy\<lparr>listing := [ami1]\<rparr>, healthyEvents)"
  by code_simp

lemma run_refusing:
  "PostProcess testConn time_Parse (mkConfig ''web'' 1) (Some ''artifact'') refusing
   = (Return None True (Some (AwsError ''ami-3'')), refusing\<lparr>listing := [ami3, ami1]\<rparr>,
      uptoThird @ DeregisterImageCall ''ami-3'' (Some (AwsError ''ami-3'')) # [])"
  by code_simp

lemma sort_scenario: "sortImages time_Parse scenario = Some newestFirst"
  by code_simp

lemma describe_healthy:
  "DescribeImages testConn tagFilter (Identifier (mkConfig ''web'' 1)) healthy = (Inr scenario, healthy)"
  by (simp add: testConn_def healthy_def)

lemma describe_refusing:
  "DescribeImages testConn tagFilter (Identifier (mkConfig ''web'' 1)) refusing = (Inr scenario, refusing)"
  by (simp add: testConn_def refusing_def)

lemma healthy_split:
  "healthyEvents = uptoSnapshot @ DeleteSnapshotCall ''ami-2'' ''snap-2'' None
     # [UiMessage ''Deleting image: ami-3'', LogPrint ''Deleting image AMI (ami-3)'',
        DeregisterImageCall ''ami-3'' None, LogPrint ''Deleting snapshot related to AMI (ami-3)'']"
  by (simp add: healthyEvents_def uptoThird_def)

lemma sort_mixed:
  "sortImages time_Parse mixed = Some [mixed ! 1, mixed ! 2, mixed ! 0]"
  by code_simp

lemma run_unreachable:
  "PostProcess testConn time_Parse (mkConfig ''web'' 1) (Some ''artifact'') unreachable
   = (Return None True (Some (AwsError ''RequestLimitExceeded'')), unreachable,
      [LogPrint ''Running Amazon AMI Management post-processor'',
       LogPrint ''Describing images for generation management'',
       DescribeImagesCall ''web'' (Some (AwsError ''RequestLimitExceeded''))])"
  by code_simp

lemma run_snapshot_refused:
  "PostProcess testConn time_Parse (mkConfig ''web'' 1) (Some ''artifact'')
     (healthy\<lparr>failing := [''snap-2'']\<rparr>)
   = (Return None True (Some (AwsError ''snap-2'')),
      healthy\<lparr>listing := [ami3, ami1], failing := [''snap-2'']\<rparr>,
      uptoSnapshot @ [DeleteSnapshotCall ''ami-2'' ''snap-2'' (Some (AwsError ''snap-2''))])"
  by code_simp



section \<open>The claims\<close>

text \<open>
  C1. Take the listing the provider returns and a retention count \<open>k \<ge> 0\<close>. A run that
  returns without an error has deregistered exactly the images of the sorted listing
  from place \<open>k\<close> on, each call with success: they are \<open>max(0, len(images) - k)\<close> many.
  The sorted listing is a rearrangement of the listing, the images kept are its first
  \<open>min(k, len(images))\<close>, and every kept image is at least as recent as every deleted one.
  When \<open>k \<ge> len(images)\<close> the run makes no deregister call and no delete-snapshot call.
\<close>

theorem retention_keeps_newest:
  assumes k: "0 \<le> KeepReleases config"
    and d: "DescribeImages conn tagFilter (Identifier config) s = (Inr images, s1)"
    and run: "PostProcess conn parse config artifact s = (Return a keep None, s', evs)"
  shows "\<exists>ordered. sortImages parse images = Some ordered \<and> mset ordered = mset images
     \<and> map Some (deregistered evs) = map ImageId (drop (nat (KeepReleases config)) ordered)
     \<and> deregisterCalls evs = deregistered evs
     \<and> int (length (deregistered evs)) = max 0 (int (length images) - KeepReleases config)
     \<and> int (length (take (nat (KeepReleases config)) ordered))
         = min (KeepReleases config) (int (length images))
     \<and> (\<forall>kept \<in> set (take (nat (KeepReleases config)) ordered).
         \<forall>gone \<in> set (drop (nat (KeepReleases config)) ordered). newerEq parse kept gone)
     \<and> (int (length images) \<le> KeepReleases config \<longrightarrow>
           deregisterCalls evs = [] \<and> snapshotCalls evs = [])"
  using run
proof (cases rule: PostProcess_cases)
  case (ran images' s1' ordered st evs')
  let ?k = "nat (KeepReleases config)"
  from ran(1) d have same: "images' = images" "s1' = s1" by simp_all
  from ran(5) have st: "st = Done" by (cases st) simp_all
  from sortImages_spec [OF ran(2)] same
  have ms: "mset ordered = mset images" and so: "sorted_wrt (newerEq parse) ordered" by simp_all
  have len: "length ordered = length images" using ms by (rule mset_eq_length)
  from deleteImages_calls [OF ran(3)] st
  have calls': "map Some (deregisterCalls evs') = map ImageId (drop ?k ordered)" by simp
  from deleteImages_messages [OF ran(3)] st
  have del': "deregistered evs' = deregisterCalls evs'" by simp
  have calls: "deregisterCalls evs = deregisterCalls evs'" and del: "deregistered evs = deregistered evs'"
    unfolding ran(4) by simp_all
  have c1: "map Some (deregistered evs) = map ImageId (drop ?k ordered)"
    using calls' del' del by simp
  have c2: "deregisterCalls evs = deregistered evs" using calls del del' by simp
  have "length (deregistered evs) = length (drop ?k ordered)"
    using c1 by (metis length_map)
  then have c3: "int (length (deregistered evs)) = max 0 (int (length images) - KeepReleases config)"
    using k len by simp
  have c4: "int (length (take ?k ordered)) = min (KeepReleases config) (int (length images))"
    using k len by simp
  have "sorted_wrt (newerEq parse) (take ?k ordered @ drop ?k ordered)" using so by simp
  then have c5: "\<forall>kept \<in> set (take ?k ordered). \<forall>gone \<in> set (drop ?k ordered). newerEq parse kept gone"
    unfolding sorted_wrt_append by blast
  have c6: "deregisterCalls evs = [] \<and> snapshotCalls evs = []"
    if "int (length images) \<le> KeepReleases config"
  proof -
    from that len have "length ordered \<le> ?k - 0" by simp
    from deleteImages_nothing [OF this, of conn s1'] ran(3) have "evs' = []" by simp
    then show ?thesis unfolding ran(4) by simp
  qed
  from ran(2) same ms c1 c2 c3 c4 c5 c6 show ?thesis by blast
qed simp_all

text \<open>A run on the scenario that keeps one image of three.\<close>

theorem retention_keeps_newest_witness:
  "0 \<le> KeepReleases (mkConfig ''web'' 1)
   \<and> DescribeImages testConn tagFilter (Identifier (mkConfig ''web'' 1)) healthy = (Inr scenario, healthy)
   \<and> PostProcess testConn time_Parse (mkConfig ''web'' 1) (Some ''artifact'') healthy
       = (Return (Some ''artifact'') True None, healthy\<lparr>listing := [ami1]\<rparr>, healthyEvents)
   \<and> (\<exists>ordered. sortImages time_Parse scenario = Some ordered \<and> mset ordered = mset scenario
     \<and> map Some (deregistered healthyEvents)
         = map ImageId (drop (nat (KeepReleases (mkConfig ''web'' 1))) ordered)
     \<and> deregisterCalls healthyEvents = deregistered healthyEvents
     \<and> int (length (deregistered healthyEvents))
         = max 0 (int (length scenario) - KeepReleases (mkConfig ''web'' 1))
     \<and> int (length (take (nat (KeepReleases (mkConfig ''web'' 1))) ordered))
         = min (KeepReleases (mkConfig ''web'' 1)) (int (length scenario))
     \<and> (\<forall>kept \<in> set (take (nat (KeepReleases (mkConfig ''web'' 1))) ordered).
         \<forall>gone \<in> set (drop (nat (KeepReleases (mkConfig ''web'' 1))) ordered).
           newerEq time_Parse kept gone)
     \<and> (int (length scenario) \<le> KeepReleases (mkConfig ''web'' 1) \<longrightarrow>
           deregisterCalls healthyEvents = [] \<and> snapshotCalls healthyEvents = []))
   \<and> deregistered healthyEvents = [''ami-2'', ''ami-3'']"
proof -
  have k: "0 \<le> KeepReleases (mkConfig ''web'' 1)" by (simp add: mkConfig_def)
  have d: "deregistered healthyEvents = [''ami-2'', ''ami-3'']" by code_simp
  from retention_keeps_newest [OF k describe_healthy run_healthy] k describe_healthy run_healthy d
  show ?thesis by (intro conjI)
qed

text \<open>
  C2. The sort leaves the listing most recent first, and the deregister calls of a run,
  in the order they are made, are for the images at the places \<open>keepCount\<close>,
  \<open>keepCount + 1\<close>, ... of the sorted listing: deletions go from the newest image past the
  kept ones towards the oldest. A run that succeeds reaches the end of the listing.
\<close>

theorem deletions_descending:
  assumes d: "DescribeImages conn tagFilter (Identifier config) s = (Inr images, s1)"
    and o: "sortImages parse images = Some ordered"
    and run: "PostProcess conn parse config artifact s = (res, s', evs)"
  shows "sorted_wrt (newerEq parse) ordered
     \<and> (\<forall>i < length (deregisterCalls evs).
           nat (KeepReleases config) + i < length ordered
           \<and> ImageId (ordered ! (nat (KeepReleases config) + i)) = Some (deregisterCalls evs ! i))
     \<and> (res = Return artifact True None \<longrightarrow>
           length (deregisterCalls evs) = length ordered - nat (KeepReleases config))"
  using run
proof (cases rule: PostProcess_cases)
  case (ran images' s1' ordered' st evs')
  let ?k = "nat (KeepReleases config)"
  from ran(1,2) d o have same: "ordered' = ordered" by simp
  have calls: "deregisterCalls evs = deregisterCalls evs'" unfolding ran(4) by simp
  from deleteImages_calls [OF ran(3)] same calls
  have p: "prefix (map Some (deregisterCalls evs)) (map ImageId (drop ?k ordered))"
    and e: "st = Done \<Longrightarrow> map Some (deregisterCalls evs) = map ImageId (drop ?k ordered)"
    by simp_all
  have c1: "sorted_wrt (newerEq parse) ordered" using sortImages_spec [OF o] by simp
  have c2: "?k + i < length ordered \<and> ImageId (ordered ! (?k + i)) = Some (deregisterCalls evs ! i)"
    if "i < length (deregisterCalls evs)" for i
  proof -
    from that have "i < length (map Some (deregisterCalls evs))" by simp
    from prefix_nth [OF p this] that
    have "i < length (drop ?k ordered)" "map ImageId (drop ?k ordered) ! i = Some (deregisterCalls evs ! i)"
      by simp_all
    then show ?thesis by (simp add: ac_simps)
  qed
  have c3: "length (deregisterCalls evs) = length ordered - ?k" if "res = Return artifact True None"
  proof -
    from that ran(5) have "st = Done" by (cases st) simp_all
    from e [OF this] have "length (map Some (deregisterCalls evs)) = length (map ImageId (drop ?k ordered))"
      by simp
    then show ?thesis by simp
  qed
  from c1 c2 c3 show ?thesis by blast
qed (use d o in simp_all)

text \<open>The run on the scenario whose second deregister call fails.\<close>

theorem deletions_descending_witness:
  "DescribeImages testConn tagFilter (Identifier (mkConfig ''web'' 1)) refusing = (Inr scenario, refusing)
   \<and> sortImages time_Parse scenario = Some newestFirst
   \<and> PostProcess testConn time_Parse (mkConfig ''web'' 1) (Some ''artifact'') refusing
       = (Return None True (Some (AwsError ''ami-3'')), refusing\<lparr>listing := [ami3, ami1]\<rparr>,
          uptoThird @ DeregisterImageCall ''ami-3'' (Some (AwsError ''ami-3'')) # [])
   \<and> sorted_wrt (newerEq time_Parse) newestFirst
   \<and> deregisterCalls (uptoThird @ DeregisterImageCall ''ami-3'' (Some (AwsError ''ami-3'')) # [])
       = [''ami-2'', ''ami-3'']
   \<and> ImageId (newestFirst ! (nat (KeepReleases (mkConfig ''web'' 1)) + 0)) = Some ''ami-2''
   \<and> ImageId (newestFirst ! (nat (KeepReleases (mkConfig ''web'' 1)) + 1)) = Some ''ami-3''"
proof -
  let ?evs = "uptoThird @ DeregisterImageCall ''ami-3'' (Some (AwsError ''ami-3'')) # []"
  have c: "deregisterCalls ?evs = [''ami-2'', ''ami-3'']" by code_simp
  from deletions_descending [OF describe_refusing sort_scenario run_refusing]
  have s: "sorted_wrt (newerEq time_Parse) newestFirst"
    and i: "\<And>i. i < length (deregisterCalls ?evs) \<Longrightarrow>
              ImageId (newestFirst ! (nat (KeepReleases (mkConfig ''web'' 1)) + i))
                = Some (deregisterCalls ?evs ! i)"
    by blast+
  from i [of 0] i [of 1] c
  have "ImageId (newestFirst ! (nat (KeepReleases (mkConfig ''web'' 1)) + 0)) = Some ''ami-2''"
    "ImageId (newestFirst ! (nat (KeepReleases (mkConfig ''web'' 1)) + 1)) = Some ''ami-3''"
    by simp_all
  with describe_refusing sort_scenario run_refusing s c show ?thesis by (intro conjI)
qed

text \<open>
  C3. Before every delete-snapshot call of a run there is a deregister call for the image
  that owns the snapshot which returned no error, with no other deregister call in
  between; and after a deregister call that failed no delete-snapshot call is made.
\<close>

theorem snapshots_after_deregister:
  assumes "PostProcess conn parse config artifact s = (res, s', evs)"
  shows "(\<forall>pre iid sid r post. evs = pre @ DeleteSnapshotCall iid sid r # post \<longrightarrow>
            (\<exists>p q. pre = p @ DeregisterImageCall iid None # q \<and> deregisterCalls q = []))
         \<and> (\<forall>pre iid e post. evs = pre @ DeregisterImageCall iid (Some e) # post \<longrightarrow>
              snapshotCalls post = [])"
proof (intro conjI allI impI)
  fix pre iid sid r post
  assume "evs = pre @ DeleteSnapshotCall iid sid r # post"
  with PostProcess_announced(3) [OF assms]
  have "cascade None (pre @ DeleteSnapshotCall iid sid r # post)" by simp
  from cascade_split [OF this]
  show "\<exists>p q. pre = p @ DeregisterImageCall iid None # q \<and> deregisterCalls q = []" by simp
next
  fix pre iid e post
  assume split: "evs = pre @ DeregisterImageCall iid (Some e) # post"
  have "failure (DeregisterImageCall iid (Some e)) = Some e" by simp
  from PostProcess_stops [OF assms split this] show "snapshotCalls post = []" by simp
qed

text \<open>The snapshot call of the run on the scenario, and the run whose deregister call fails.\<close>

theorem snapshots_after_deregister_witness:
  "PostProcess testConn time_Parse (mkConfig ''web'' 1) (Some ''artifact'') healthy
       = (Return (Some ''artifact'') True None, healthy\<lparr>listing := [ami1]\<rparr>, healthyEvents)
   \<and> healthyEvents = uptoSnapshot @ DeleteSnapshotCall ''ami-2'' ''snap-2'' None
       # [UiMessage ''Deleting image: ami-3'', LogPrint ''Deleting image AMI (ami-3)'',
          DeregisterImageCall ''ami-3'' None, LogPrint ''Deleting snapshot related to AMI (ami-3)'']
   \<and> (\<exists>p q. uptoSnapshot = p @ DeregisterImageCall ''ami-2'' None # q \<and> deregisterCalls q = [])
   \<and> PostProcess testConn time_Parse (mkConfig ''web'' 1) (Some ''artifact'') refusing
       = (Return None True (Some (AwsError ''ami-3'')), refusing\<lparr>listing := [ami3, ami1]\<rparr>,
          uptoThird @ DeregisterImageCall ''ami-3'' (Some (AwsError ''ami-3'')) # [])
   \<and> snapshotCalls [] = []"
proof -
  from snapshots_after_deregister [OF run_healthy] healthy_split
  have a: "\<exists>p q. uptoSnapshot = p @ DeregisterImageCall ''ami-2'' None # q \<and> deregisterCalls q = []"
    by blast
  from snapshots_after_deregister [OF run_refusing]
  have b: "snapshotCalls [] = []" by blast
  from run_healthy healthy_split a run_refusing b show ?thesis by (intro conjI)
qed

text \<open>
  C4. When a provider call of a run fails, the run returns that error and the failing
  call is its last event: no call before it failed, nothing is retried or undone, and the
  images deregistered or attempted are an initial part of the deletion set, so the images
  after the failing one are never touched.
\<close>

theorem abort_on_first_failure:
  assumes "PostProcess conn parse config artifact s = (res, s', evs)"
    and "evs = pre @ ev # post" and "failure ev = Some e"
  shows "res = Return None True (Some e) \<and> post = [] \<and> (\<forall>ev' \<in> set pre. failure ev' = None)
         \<and> (\<forall>images s1 ordered.
               DescribeImages conn tagFilter (Identifier config) s = (Inr images, s1)
               \<and> sortImages parse images = Some ordered \<longrightarrow>
               prefix (map Some (deregisterCalls evs))
                      (map ImageId (drop (nat (KeepReleases config)) ordered)))"
proof -
  from PostProcess_stops [OF assms]
  have a: "res = Return None True (Some e)" "post = []" "failures pre = []" by simp_all
  have b: "\<forall>ev' \<in> set pre. failure ev' = None"
    using failures_member [OF a(3)] by blast
  have c: "prefix (map Some (deregisterCalls evs))
                  (map ImageId (drop (nat (KeepReleases config)) ordered))"
    if d: "DescribeImages conn tagFilter (Identifier config) s = (Inr images, s1)"
      and o: "sortImages parse images = Some ordered" for images s1 ordered
    using assms(1)
  proof (cases rule: PostProcess_cases)
    case (ran images' s1' ordered' st evs')
    with d o have "ordered' = ordered" by simp
    with deleteImages_calls [OF ran(3)] ran(4) show ?thesis by simp
  qed (use d o in simp_all)
  from a b c show ?thesis by blast
qed

text \<open>The run on the scenario where deregistering \<^verbatim>\<open>ami-3\<close> fails.\<close>

theorem abort_on_first_failure_witness:
  "PostProcess testConn time_Parse (mkConfig ''web'' 1) (Some ''artifact'') refusing
       = (Return None True (Some (AwsError ''ami-3'')), refusing\<lparr>listing := [ami3, ami1]\<rparr>,
          uptoThird @ DeregisterImageCall ''ami-3'' (Some (AwsError ''ami-3'')) # [])
   \<and> failure (DeregisterImageCall ''ami-3'' (Some (AwsError ''ami-3''))) = Some (AwsError ''ami-3'')
   \<and> failure (DeregisterImageCall ''ami-2'' None) = None
   \<and> DescribeImages testConn tagFilter (Identifier (mkConfig ''web'' 1)) refusing = (Inr scenario, refusing)
   \<and> sortImages time_Parse scenario = Some newestFirst
   \<and> prefix (map Some (deregisterCalls
                (uptoThird @ DeregisterImageCall ''ami-3'' (Some (AwsError ''ami-3'')) # [])))
             (map ImageId (drop (nat (KeepReleases (mkConfig ''web'' 1))) newestFirst))"
proof -
  have f: "failure (DeregisterImageCall ''ami-3'' (Some (AwsError ''ami-3''))) = Some (AwsError ''ami-3'')"
    by simp
  have m: "DeregisterImageCall ''ami-2'' None \<in> set uptoThird"
    by (simp add: uptoThird_def uptoSnapshot_def)
  from abort_on_first_failure [OF run_refusing refl f] describe_refusing sort_scenario m
  have "failure (DeregisterImageCall ''ami-2'' None) = None"
    and "prefix (map Some (deregisterCalls
                (uptoThird @ DeregisterImageCall ''ami-3'' (Some (AwsError ''ami-3'')) # [])))
             (map ImageId (drop (nat (KeepReleases (mkConfig ''web'' 1))) newestFirst))"
    by blast+
  with run_refusing f describe_refusing sort_scenario show ?thesis by (intro conjI) simp_all
qed

text \<open>
  C5, as the code has it. In a listing where every image has a creation timestamp, the
  sort returns (it does not panic and gives no error) whether the timestamps parse or
  not. An image whose timestamp does not parse is compared as the zero time. It
  therefore comes after every image whose timestamp parses to an instant later than the
  zero time, and it is in the deletion set whenever at least \<open>keepCount\<close> images have such
  timestamps.
\<close>

theorem malformed_sorts_as_zero_time:
  assumes "\<forall>img \<in> set images. CreationDate img \<noteq> None"
  shows "\<exists>ordered. sortImages parse images = Some ordered \<and> mset ordered = mset images
     \<and> (\<forall>img \<in> set images. malformed parse img \<longrightarrow> createdAt parse img = Some zeroTime)
     \<and> (\<forall>i j. i < j \<and> j < length ordered \<and> malformed parse (ordered ! i) \<longrightarrow>
           \<not> afterZero parse (ordered ! j))
     \<and> (\<forall>k. k \<le> length (filter (afterZero parse) images) \<longrightarrow>
           (\<forall>img \<in> set (take k ordered). \<not> malformed parse img))"
proof -
  from assms have "dated images" by (simp add: dated_def)
  from sortImages_sorted [OF this, of parse] obtain ordered where
    o: "sortImages parse images = Some ordered" and ms: "mset ordered = mset images" and
    so: "sorted_wrt (\<lambda>a b. timeKey parse b \<le> timeKey parse a) ordered" by blast
  have c3: "\<forall>img \<in> set images. malformed parse img \<longrightarrow> createdAt parse img = Some zeroTime"
    using malformed_zero by blast
  have later: "\<not> afterZero parse (ordered ! j)"
    if "i < j" "j < length ordered" "malformed parse (ordered ! i)" for i j
  proof
    assume "afterZero parse (ordered ! j)"
    then have "zeroTime < timeKey parse (ordered ! j)" by (rule afterZero_timeKey)
    moreover have "timeKey parse (ordered ! j) \<le> timeKey parse (ordered ! i)"
      using so that(1,2) by (simp add: sorted_wrt_iff_nth_less)
    moreover have "timeKey parse (ordered ! i) = zeroTime"
      using malformed_zero [OF that(3)] by simp
    ultimately show False by simp
  qed
  have self: "\<not> afterZero parse img" if "malformed parse img" for img
    using afterZero_timeKey [of parse img] malformed_zero [OF that] by auto
  have c5: "\<not> malformed parse img"
    if k: "k \<le> length (filter (afterZero parse) images)" and mem: "img \<in> set (take k ordered)"
    for k img
  proof
    assume bad: "malformed parse img"
    from mem obtain i where i: "i < k" "i < length ordered" "ordered ! i = img"
      by (auto simp: in_set_conv_nth)
    have "\<not> afterZero parse x" if "x \<in> set (drop i ordered)" for x
    proof -
      from that obtain j where j: "i \<le> j" "j < length ordered" "ordered ! j = x"
        unfolding in_set_drop_iff by blast
      show ?thesis
      proof (cases "j = i")
        case True
        with j i bad self show ?thesis by auto
      next
        case False
        with j have "i < j" by simp
        from later [OF this j(2)] i bad j show ?thesis by simp
      qed
    qed
    then have "filter (afterZero parse) (drop i ordered) = []" by (simp add: filter_empty_conv)
    moreover have "filter (afterZero parse) ordered
        = filter (afterZero parse) (take i ordered) @ filter (afterZero parse) (drop i ordered)"
      by (metis append_take_drop_id filter_append)
    ultimately have "filter (afterZero parse) ordered = filter (afterZero parse) (take i ordered)"
      by simp
    moreover have "length (filter (afterZero parse) (take i ordered)) \<le> length (take i ordered)"
      by (rule length_filter_le)
    ultimately have "length (filter (afterZero parse) ordered) \<le> i" by simp
    with filter_length_mset [OF ms, of "afterZero parse"] k i(1) show False by simp
  qed
  from o ms c3 later c5 show ?thesis by blast
qed

text \<open>A listing of three images, the first with a timestamp that does not parse.\<close>

theorem malformed_sorts_as_zero_time_witness:
  "map CreationDate mixed
     = [Some ''not-a-date'', Some ''2020-01-02T00:00:00.000Z'', Some ''2019-01-02T00:00:00.000Z'']
   \<and> map (malformed time_Parse) mixed = [True, False, False]
   \<and> sortImages time_Parse mixed = Some [mixed ! 1, mixed ! 2, mixed ! 0]
   \<and> (\<exists>ordered. sortImages time_Parse mixed = Some ordered \<and> mset ordered = mset mixed
     \<and> (\<forall>img \<in> set mixed. malformed time_Parse img \<longrightarrow> createdAt time_Parse img = Some zeroTime)
     \<and> (\<forall>i j. i < j \<and> j < length ordered \<and> malformed time_Parse (ordered ! i) \<longrightarrow>
           \<not> afterZero time_Parse (ordered ! j))
     \<and> (\<forall>k. k \<le> length (filter (afterZero time_Parse) mixed) \<longrightarrow>
           (\<forall>img \<in> set (take k ordered). \<not> malformed time_Parse img)))"
proof -
  have c: "map CreationDate mixed
     = [Some ''not-a-date'', Some ''2020-01-02T00:00:00.000Z'', Some ''2019-01-02T00:00:00.000Z'']"
    by (simp add: mixed_def mkImage_def)
  have m: "map (malformed time_Parse) mixed = [True, False, False]" by code_simp
  have h: "\<forall>img \<in> set mixed. CreationDate img \<noteq> None"
    by (simp add: mixed_def mkImage_def)
  from malformed_sorts_as_zero_time [OF h, of time_Parse] c m sort_mixed
  show ?thesis by (intro conjI)
qed

text \<open>
  The claim as the specification words it says that an image with a malformed timestamp
  sorts after all images with a valid one. The zero time is not the earliest time a
  timestamp can denote: \<^verbatim>\<open>0001-01-01T00:00:00.000Z\<close> parses, to the zero time itself. In the
  listing below the valid image comes first; the sort compares the two as equal, swaps
  them, and with \<open>keepCount = 1\<close> the run keeps the malformed image and deregisters the valid
  one.
\<close>

theorem malformed_before_valid_counterexample:
  "time_Parse ''0001-01-01T00:00:00.000Z'' = Some zeroTime
   \<and> time_Parse ''not-a-date'' = None
   \<and> map ImageId ancient = [Some ''ami-0001'', Some ''ami-bad'']
   \<and> map (malformed time_Parse) ancient = [False, True]
   \<and> map_option (map ImageId) (sortImages time_Parse ancient) = Some [Some ''ami-bad'', Some ''ami-0001'']
   \<and> deregisterCalls (snd (snd (PostProcess testConn time_Parse (mkConfig ''web'' 1)
         (Some ''artifact'') \<lparr>listing = ancient, failing = [], describeError = None\<rparr>)))
       = [''ami-0001'']"
  by code_simp

text \<open>
  C6. With a negative \<open>keepCount\<close> a run is the run with \<open>keepCount = 0\<close>: same result,
  same provider state, same events. When it returns without an error, it has
  deregistered every image of the listing.
\<close>

theorem negative_keep_is_zero:
  assumes "KeepReleases config < 0"
  shows "PostProcess conn parse config artifact s
           = PostProcess conn parse (config\<lparr>KeepReleases := 0\<rparr>) artifact s
     \<and> (\<forall>images s1 a keep s' evs.
           DescribeImages conn tagFilter (Identifier config) s = (Inr images, s1)
           \<and> PostProcess conn parse config artifact s = (Return a keep None, s', evs) \<longrightarrow>
           (\<exists>ordered. sortImages parse images = Some ordered \<and> mset ordered = mset images
                     \<and> map Some (deregistered evs) = map ImageId ordered))"
proof -
  have one: "PostProcess conn parse config artifact s
           = PostProcess conn parse (config\<lparr>KeepReleases := 0\<rparr>) artifact s"
  proof -
    have k0: "KeepReleases (config\<lparr>KeepReleases := 0\<rparr>) = 0"
      "Identifier (config\<lparr>KeepReleases := 0\<rparr>) = Identifier config" by simp_all
    show ?thesis
      unfolding PostProcess_def k0 deleteImages_negative [OF assms] by (rule refl)
  qed
  have two: "\<exists>ordered. sortImages parse images = Some ordered \<and> mset ordered = mset images
                     \<and> map Some (deregistered evs) = map ImageId ordered"
    if d: "DescribeImages conn tagFilter (Identifier config) s = (Inr images, s1)"
      and run: "PostProcess conn parse config artifact s = (Return a keep None, s', evs)"
    for images s1 a keep s' evs
    using run
  proof (cases rule: PostProcess_cases)
    case (ran images' s1' ordered st evs')
    from ran(1) d have same: "images' = images" by simp
    from ran(5) have st: "st = Done" by (cases st) simp_all
    have z: "nat (KeepReleases config) - 0 = 0" using assms by simp
    from deleteImages_calls [OF ran(3)] deleteImages_messages [OF ran(3)] st z
    have "map Some (deregistered evs') = map ImageId ordered" by simp
    moreover have "deregistered evs = deregistered evs'" unfolding ran(4) by simp
    ultimately show ?thesis using ran(2) same sortImages_spec [OF ran(2)] by simp
  qed simp_all
  from one two show ?thesis by blast
qed

text \<open>The scenario with \<open>keepCount = -2\<close>.\<close>

theorem negative_keep_is_zero_witness:
  "KeepReleases (mkConfig ''web'' (- 2)) < 0
   \<and> PostProcess testConn time_Parse (mkConfig ''web'' (- 2)) (Some ''artifact'') healthy
       = PostProcess testConn time_Parse ((mkConfig ''web'' (- 2))\<lparr>KeepReleases := 0\<rparr>)
           (Some ''artifact'') healthy
   \<and> DescribeImages testConn tagFilter (Identifier (mkConfig ''web'' (- 2))) healthy = (Inr scenario, healthy)
   \<and> fst (PostProcess testConn time_Parse (mkConfig ''web'' (- 2)) (Some ''artifact'') healthy)
       = Return (Some ''artifact'') True None
   \<and> (\<exists>ordered. sortImages time_Parse scenario = Some ordered \<and> mset ordered = mset scenario
         \<and> map Some (deregistered (snd (snd (PostProcess testConn time_Parse
               (mkConfig ''web'' (- 2)) (Some ''artifact'') healthy))))
             = map ImageId ordered)
   \<and> deregistered (snd (snd (PostProcess testConn time_Parse
               (mkConfig ''web'' (- 2)) (Some ''artifact'') healthy)))
       = [''ami-1'', ''ami-2'', ''ami-3'']"
proof -
  let ?run = "PostProcess testConn time_Parse (mkConfig ''web'' (- 2)) (Some ''artifact'') healthy"
  have k: "KeepReleases (mkConfig ''web'' (- 2)) < 0" by (simp add: mkConfig_def)
  have d: "DescribeImages testConn tagFilter (Identifier (mkConfig ''web'' (- 2))) healthy = (Inr scenario, healthy)"
    by (simp add: testConn_def healthy_def)
  have r: "fst ?run = Return (Some ''artifact'') True None" by code_simp
  then have run: "?run = (Return (Some ''artifact'') True None, fst (snd ?run), snd (snd ?run))"
    by (metis prod.collapse)
  have all: "deregistered (snd (snd ?run)) = [''ami-1'', ''ami-2'', ''ami-3'']" by code_simp
  from negative_keep_is_zero [OF k, of testConn time_Parse "Some ''artifact''" healthy] d run
  have "?run = PostProcess testConn time_Parse ((mkConfig ''web'' (- 2))\<lparr>KeepReleases := 0\<rparr>)
           (Some ''artifact'') healthy"
    and "\<exists>ordered. sortImages time_Parse scenario = Some ordered \<and> mset ordered = mset scenario
         \<and> map Some (deregistered (snd (snd ?run))) = map ImageId ordered"
    by blast+
  with k d r all show ?thesis by (intro conjI)
qed




text \<open>
  C8, as the code has it. A run that completes without an error returns the input
  artifact as it was given, the keep flag true and no error, and nothing else: the
  returned triple holds no report. The deleted images are reported to the user only, as
  the messages \<^verbatim>\<open>Deleting image: <id>\<close>, one for each deregistered image in the order of
  deletion.
\<close>

theorem success_returns_artifact:
  assumes "PostProcess conn parse config artifact s = (Return a keep None, s', evs)"
  shows "a = artifact \<and> keep = True \<and> failures evs = []
         \<and> deregisterCalls evs = deregistered evs
         \<and> uiMessages evs = map msgDeletingImage (deregistered evs)"
proof -
  from PostProcess_failures [OF assms] have a: "a = artifact" "keep" "failures evs = []"
    by simp_all
  from failures_deregistered [OF a(3)] PostProcess_announced(2) [OF assms] a
  show ?thesis by simp
qed

text \<open>The run on the scenario that keeps one image.\<close>

theorem success_returns_artifact_witness:
  "PostProcess testConn time_Parse (mkConfig ''web'' 1) (Some ''artifact'') healthy
       = (Return (Some ''artifact'') True None, healthy\<lparr>listing := [ami1]\<rparr>, healthyEvents)
   \<and> failures healthyEvents = []
   \<and> deregisterCalls healthyEvents = deregistered healthyEvents
   \<and> uiMessages healthyEvents = map msgDeletingImage (deregistered healthyEvents)
   \<and> uiMessages healthyEvents = [''Deleting image: ami-2'', ''Deleting image: ami-3'']"
proof -
  have u: "uiMessages healthyEvents = [''Deleting image: ami-2'', ''Deleting image: ami-3'']"
    by code_simp
  from success_returns_artifact [OF run_healthy] run_healthy u show ?thesis by (intro conjI) simp_all
qed

text \<open>
  The claim as the specification words it says that the run returns a report of the
  deleted image identifiers. Two runs on the scenario, one that deletes two images and one
  that deletes none, return the same value.
\<close>

theorem return_value_is_no_report_counterexample:
  "fst (PostProcess testConn time_Parse (mkConfig ''web'' 1) (Some ''artifact'') healthy)
     = Return (Some ''artifact'') True None
   \<and> fst (PostProcess testConn time_Parse (mkConfig ''web'' 3) (Some ''artifact'') healthy)
     = Return (Some ''artifact'') True None
   \<and> deregistered (snd (snd (PostProcess testConn time_Parse (mkConfig ''web'' 1)
         (Some ''artifact'') healthy))) = [''ami-2'', ''ami-3'']
   \<and> deregistered (snd (snd (PostProcess testConn time_Parse (mkConfig ''web'' 3)
         (Some ''artifact'') healthy))) = []"
  by code_simp

text \<open>
  C9. Whenever a provider call of a run returns an error (\<^verbatim>\<open>DescribeImages\<close>,
  \<^verbatim>\<open>DeregisterImage\<close> or \<^verbatim>\<open>DeleteSnapshot\<close>), \<^verbatim>\<open>PostProcess\<close> returns a nil artifact, the
  keep flag true and that very error; and every return with an error is of this kind,
  the error being the one of the last call made.
\<close>

theorem error_returns_nil_artifact:
  assumes "PostProcess conn parse config artifact s = (res, s', evs)"
  shows "(\<forall>ev \<in> set evs. \<forall>e. failure ev = Some e \<longrightarrow> res = Return None True (Some e))
         \<and> (\<forall>a keep e. res = Return a keep (Some e) \<longrightarrow>
               a = None \<and> keep = True \<and> evs \<noteq> [] \<and> failure (last evs) = Some e)"
proof -
  have one: "res = Return None True (Some e)" if "ev \<in> set evs" "failure ev = Some e" for ev e
  proof -
    from that(1) obtain pre post where "evs = pre @ ev # post"
      by (auto simp: in_set_conv_decomp)
    from PostProcess_stops [OF assms this that(2)] show ?thesis by simp
  qed
  have two: "a = None \<and> keep = True \<and> evs \<noteq> [] \<and> failure (last evs) = Some e"
    if "res = Return a keep (Some e)" for a keep e
    using PostProcess_failures [OF assms] that by simp
  from one two show ?thesis by blast
qed

text \<open>Three runs on the scenario: the listing fails, a deregister call fails, a snapshot call fails.\<close>

theorem error_returns_nil_artifact_witness:
  "fst (PostProcess testConn time_Parse (mkConfig ''web'' 1) (Some ''artifact'') unreachable)
     = Return None True (Some (AwsError ''RequestLimitExceeded''))
   \<and> fst (PostProcess testConn time_Parse (mkConfig ''web'' 1) (Some ''artifact'') refusing)
     = Return None True (Some (AwsError ''ami-3''))
   \<and> fst (PostProcess testConn time_Parse (mkConfig ''web'' 1) (Some ''artifact'')
           (healthy\<lparr>failing := [''snap-2'']\<rparr>))
     = Return None True (Some (AwsError ''snap-2''))
   \<and> failure (last (uptoThird @ DeregisterImageCall ''ami-3'' (Some (AwsError ''ami-3'')) # []))
     = Some (AwsError ''ami-3'')"
proof -
  have a: "fst (PostProcess testConn time_Parse (mkConfig ''web'' 1) (Some ''artifact'') unreachable)
     = Return None True (Some (AwsError ''RequestLimitExceeded''))"
    using error_returns_nil_artifact [OF run_unreachable] run_unreachable by simp
  have b: "fst (PostProcess testConn time_Parse (mkConfig ''web'' 1) (Some ''artifact'') refusing)
     = Return None True (Some (AwsError ''ami-3''))"
    using error_returns_nil_artifact [OF run_refusing] run_refusing by simp
  have c: "fst (PostProcess testConn time_Parse (mkConfig ''web'' 1) (Some ''artifact'')
           (healthy\<lparr>failing := [''snap-2'']\<rparr>))
     = Return None True (Some (AwsError ''snap-2''))"
    using error_returns_nil_artifact [OF run_snapshot_refused] run_snapshot_refused by simp
  from error_returns_nil_artifact [OF run_refusing]
  have d: "failure (last (uptoThird @ DeregisterImageCall ''ami-3'' (Some (AwsError ''ami-3'')) # []))
     = Some (AwsError ''ami-3'')" by blast
  from a b c d show ?thesis by (intro conjI)
qed

text \<open>
  C10. Every deregister call of a run comes right after the user-visible message
  \<^verbatim>\<open>Deleting image: <id>\<close> for its image (and the log line of line 115), whatever the call
  returns. When the call fails, the messages of the run are those of the images it
  deleted followed by the message of the image whose deregistration failed.
\<close>

theorem message_before_deregister:
  assumes "PostProcess conn parse config artifact s = (res, s', evs)"
    and "evs = pre @ DeregisterImageCall iid r # post"
  shows "(\<exists>pre'. pre = pre' @ [UiMessage (msgDeletingImage iid), LogPrint (logDeletingImage iid)])
         \<and> (r \<noteq> None \<longrightarrow>
              uiMessages evs = map msgDeletingImage (deregistered evs) @ [msgDeletingImage iid])"
proof -
  from PostProcess_announced(1) [OF assms(1)] assms(2)
  have first: "\<exists>pre'. pre = pre' @ [UiMessage (msgDeletingImage iid), LogPrint (logDeletingImage iid)]"
    unfolding announced_def by blast
  have second: "uiMessages evs = map msgDeletingImage (deregistered evs) @ [msgDeletingImage iid]"
    if "r \<noteq> None"
  proof -
    from that obtain e where e: "r = Some e" by auto
    then have "failure (DeregisterImageCall iid r) = Some e" by simp
    from PostProcess_stops [OF assms this]
    have p: "post = []" "failures pre = []" by simp_all
    have "deregisterCalls evs = deregistered evs @ [iid]"
      unfolding assms(2) using p e
      by (simp add: deregisterCalls_append deregistered_append failures_deregistered)
    with PostProcess_announced(2) [OF assms(1)] show ?thesis by simp
  qed
  from first second show ?thesis by blast
qed

text \<open>The run on the scenario where deregistering \<^verbatim>\<open>ami-3\<close> fails.\<close>

theorem message_before_deregister_witness:
  "PostProcess testConn time_Parse (mkConfig ''web'' 1) (Some ''artifact'') refusing
     = (Return None True (Some (AwsError ''ami-3'')), refusing\<lparr>listing := [ami3, ami1]\<rparr>,
        uptoThird @ DeregisterImageCall ''ami-3'' (Some (AwsError ''ami-3'')) # [])
   \<and> (\<exists>pre'. uptoThird = pre' @ [UiMessage (msgDeletingImage ''ami-3''),
                                  LogPrint (logDeletingImage ''ami-3'')])
   \<and> uiMessages (uptoThird @ DeregisterImageCall ''ami-3'' (Some (AwsError ''ami-3'')) # [])
       = map msgDeletingImage
           (deregistered (uptoThird @ DeregisterImageCall ''ami-3'' (Some (AwsError ''ami-3'')) # []))
         @ [msgDeletingImage ''ami-3'']"
  using message_before_deregister [OF run_refusing refl] run_refusing by simp

end
